theory Spec2Isabelle
  imports Complex_Main "HOL-Library.Log_Nat"
begin

section \<open>JavaScript numbers\<close>

text \<open>
  The three simulations compute with JavaScript numbers, which are IEEE 754 double-precision
  numbers. The embedding takes a finite number to be the real number it denotes (zero has
  no sign) and keeps the three non-finite values apart, so that a division by zero is a
  value of the model and not HOL's \<open>x / 0 = 0\<close>. The operations \<open>jsadd\<close>, \<open>jsmul\<close>, \<open>jsdiv\<close>
  below give the exact result of an operation; the operations \<open>fadd\<close>, \<open>fmul\<close>, \<open>fdiv\<close>
  further below round it to double precision. The regression and the count of sub-steps
  per frame compute with the rounded operations; the integration steps of the three
  simulations are embedded over the reals.
\<close>

datatype jsnum = Num real | PosInf | NegInf | NaN

fun jsadd :: "jsnum \<Rightarrow> jsnum \<Rightarrow> jsnum" where
  "jsadd (Num a) (Num b) = Num (a + b)"
| "jsadd NaN _ = NaN"
| "jsadd _ NaN = NaN"
| "jsadd PosInf NegInf = NaN"
| "jsadd NegInf PosInf = NaN"
| "jsadd PosInf _ = PosInf"
| "jsadd _ PosInf = PosInf"
| "jsadd NegInf _ = NegInf"
| "jsadd _ NegInf = NegInf"

fun jsneg :: "jsnum \<Rightarrow> jsnum" where
  "jsneg (Num a) = Num (- a)"
| "jsneg PosInf = NegInf"
| "jsneg NegInf = PosInf"
| "jsneg NaN = NaN"

definition jssub :: "jsnum \<Rightarrow> jsnum \<Rightarrow> jsnum" where
  "jssub a b = jsadd a (jsneg b)"

text \<open>The sign of a number that is not NaN: \<open>-1\<close>, \<open>0\<close> or \<open>1\<close>.\<close>

fun jssgn :: "jsnum \<Rightarrow> real" where
  "jssgn (Num a) = sgn a"
| "jssgn PosInf = 1"
| "jssgn NegInf = - 1"
| "jssgn NaN = 0"

definition jsinf :: "real \<Rightarrow> jsnum" where
  "jsinf s = (if s = 0 then NaN else if 0 < s then PosInf else NegInf)"

fun jsmul :: "jsnum \<Rightarrow> jsnum \<Rightarrow> jsnum" where
  "jsmul (Num a) (Num b) = Num (a * b)"
| "jsmul NaN _ = NaN"
| "jsmul _ NaN = NaN"
| "jsmul a b = jsinf (jssgn a * jssgn b)"

fun jsdiv :: "jsnum \<Rightarrow> jsnum \<Rightarrow> jsnum" where
  "jsdiv (Num a) (Num b) = (if b = 0 then jsinf (sgn a) else Num (a / b))"
| "jsdiv NaN _ = NaN"
| "jsdiv _ NaN = NaN"
| "jsdiv (Num a) _ = Num 0"
| "jsdiv a (Num b) = jsinf (jssgn a * (if b < 0 then - 1 else 1))"
| "jsdiv _ _ = NaN"

fun jssqrt :: "jsnum \<Rightarrow> jsnum" where
  "jssqrt (Num a) = (if a < 0 then NaN else Num (sqrt a))"
| "jssqrt PosInf = PosInf"
| "jssqrt NegInf = NaN"
| "jssqrt NaN = NaN"

subsection \<open>Rounding to double precision\<close>

text \<open>
  Rounding of a real to the nearest integer, a tie going to the even one.
\<close>

definition round_ties_even :: "real \<Rightarrow> int" where
  "round_ties_even x =
     (let n = \<lfloor>x\<rfloor>; r = x - of_int n
      in if r < 1 / 2 then n else if 1 / 2 < r then n + 1 else if even n then n else n + 1)"

text \<open>
  The binary exponent of a real \<open>x \<noteq> 0\<close>: the integer \<open>e\<close> with
  \<open>2 powi e \<le> \<bar>x\<bar> < 2 powi (e + 1)\<close> (lemmas \<open>binade_bounds\<close> and \<open>binade_unique\<close>),
  computed from the bit length of an integer.
\<close>

definition binade :: "real \<Rightarrow> int" where
  "binade x = (if 1 \<le> \<bar>x\<bar> then bitlen \<lfloor>\<bar>x\<bar>\<rfloor> - 1 else - bitlen (\<lceil>1 / \<bar>x\<bar>\<rceil> - 1))"

text \<open>
  The spacing of the double-precision numbers around \<open>x\<close>: 53 significant bits, and the
  smallest exponent of a normal number is \<open>-1022\<close>, below which the spacing stays
  \<open>2 powi (- 1074)\<close>.
\<close>

definition ulp64 :: "real \<Rightarrow> real" where
  "ulp64 x = 2 powi (max (binade x) (- 1022) - 52)"

text \<open>
  \<open>round64 x\<close> is the multiple of that spacing nearest to \<open>x\<close>, a tie going to the even
  multiple; \<open>fl64 x\<close> is the JavaScript number that an operation with the exact result \<open>x\<close>
  returns: the rounded result, or an infinity if that is beyond the largest finite number.
\<close>

definition round64 :: "real \<Rightarrow> real" where
  "round64 x = of_int (round_ties_even (x / ulp64 x)) * ulp64 x"

definition fl64 :: "real \<Rightarrow> jsnum" where
  "fl64 x = (if 2 ^ 1024 \<le> \<bar>round64 x\<bar> then (if 0 < x then PosInf else NegInf)
             else Num (round64 x))"

fun rounded :: "jsnum \<Rightarrow> jsnum" where
  "rounded (Num x) = fl64 x"
| "rounded PosInf = PosInf"
| "rounded NegInf = NegInf"
| "rounded NaN = NaN"

text \<open>The operators \<open>+\<close>, \<open>-\<close>, \<open>*\<close> and \<open>/\<close> of JavaScript.\<close>

definition fadd :: "jsnum \<Rightarrow> jsnum \<Rightarrow> jsnum" where
  "fadd a b = rounded (jsadd a b)"

definition fsub :: "jsnum \<Rightarrow> jsnum \<Rightarrow> jsnum" where
  "fsub a b = rounded (jssub a b)"

definition fmul :: "jsnum \<Rightarrow> jsnum \<Rightarrow> jsnum" where
  "fmul a b = rounded (jsmul a b)"

definition fdiv :: "jsnum \<Rightarrow> jsnum \<Rightarrow> jsnum" where
  "fdiv a b = rounded (jsdiv a b)"

text \<open>The comparison \<open>a < b\<close>, which is false when an operand is NaN.\<close>

fun jsless :: "jsnum \<Rightarrow> jsnum \<Rightarrow> bool" where
  "jsless (Num a) (Num b) = (a < b)"
| "jsless NaN _ = False"
| "jsless _ NaN = False"
| "jsless PosInf _ = False"
| "jsless _ NegInf = False"
| "jsless _ PosInf = True"
| "jsless NegInf _ = True"

text \<open>
  \<open>Math.round\<close> rounds to the nearest integer, a half towards plus infinity (the integer is
  a double-precision number whenever its argument is one); \<open>Math.min\<close> is NaN when an
  argument is.
\<close>

fun Math_round :: "jsnum \<Rightarrow> jsnum" where
  "Math_round (Num x) = Num (of_int \<lfloor>x + 0.5\<rfloor>)"
| "Math_round PosInf = PosInf"
| "Math_round NegInf = NegInf"
| "Math_round NaN = NaN"

fun Math_min :: "jsnum \<Rightarrow> jsnum \<Rightarrow> jsnum" where
  "Math_min NaN _ = NaN"
| "Math_min _ NaN = NaN"
| "Math_min a b = (if jsless b a then b else a)"

section \<open>Linear regression\<close>

text \<open>
  \<open>linearRegression\<close> is written out twice, with the same body, in the pendulum page and in
  the centripetal-acceleration page; only the first begins with the guard that returns
  \<open>null\<close> for fewer than two samples. The arrays hold finite numbers; reading an array past
  its end gives \<open>undefined\<close>, which is NaN in arithmetic. Every operation rounds its result
  to double precision.
\<close>

definition jsidx :: "real list \<Rightarrow> nat \<Rightarrow> jsnum" where
  "jsidx xs i = (if i < length xs then Num (xs ! i) else NaN)"

record regression_sums =
  sumX :: jsnum
  sumY :: jsnum
  sumXY :: jsnum
  sumX2 :: jsnum
  sumY2 :: jsnum

text \<open>The body of the first loop, at index \<open>i\<close>.\<close>

definition sumStep :: "real list \<Rightarrow> real list \<Rightarrow> nat \<Rightarrow> regression_sums \<Rightarrow> regression_sums" where
  "sumStep xData yData i a =
     \<lparr>sumX = fadd (sumX a) (jsidx xData i),
      sumY = fadd (sumY a) (jsidx yData i),
      sumXY = fadd (sumXY a) (fmul (jsidx xData i) (jsidx yData i)),
      sumX2 = fadd (sumX2 a) (fmul (jsidx xData i) (jsidx xData i)),
      sumY2 = fadd (sumY2 a) (fmul (jsidx yData i) (jsidx yData i))\<rparr>"

text \<open>
  The body of the second loop, on the pair \<open>(ssTotal, ssResidual)\<close>; \<open>v ** 2\<close> is the
  product of \<open>v\<close> with itself.
\<close>

definition ssStep ::
  "real list \<Rightarrow> real list \<Rightarrow> jsnum \<Rightarrow> jsnum \<Rightarrow> jsnum \<Rightarrow> nat \<Rightarrow> jsnum \<times> jsnum \<Rightarrow> jsnum \<times> jsnum"
  where
  "ssStep xData yData slope intercept yMean i a =
     (let ssTotal = fadd (fst a)
            (fmul (fsub (jsidx yData i) yMean) (fsub (jsidx yData i) yMean));
          yPredicted = fadd (fmul slope (jsidx xData i)) intercept;
          ssResidual = fadd (snd a)
            (fmul (fsub (jsidx yData i) yPredicted) (fsub (jsidx yData i) yPredicted))
      in (ssTotal, ssResidual))"

record regression =
  slope :: jsnum
  intercept :: jsnum
  r2 :: jsnum

definition regressionFit :: "real list \<Rightarrow> real list \<Rightarrow> regression" where
  "regressionFit xData yData =
     (let n = length xData;
          a = fold (sumStep xData yData) [0..<n]
                \<lparr>sumX = Num 0, sumY = Num 0, sumXY = Num 0, sumX2 = Num 0, sumY2 = Num 0\<rparr>;
          slope = fdiv (fsub (fmul (Num (real n)) (sumXY a)) (fmul (sumX a) (sumY a)))
                    (fsub (fmul (Num (real n)) (sumX2 a)) (fmul (sumX a) (sumX a)));
          intercept = fdiv (fsub (sumY a) (fmul slope (sumX a))) (Num (real n));
          yMean = fdiv (sumY a) (Num (real n));
          ss = fold (ssStep xData yData slope intercept yMean) [0..<n] (Num 0, Num 0);
          r2 = fsub (Num 1) (fdiv (snd ss) (fst ss))
      in \<lparr>slope = slope, intercept = intercept, r2 = r2\<rparr>)"

text \<open>The pendulum page's function: \<open>None\<close> is its \<open>null\<close>.\<close>

definition linearRegression_pendulum :: "real list \<Rightarrow> real list \<Rightarrow> regression option" where
  "linearRegression_pendulum xData yData =
     (if length xData < 2 then None else Some (regressionFit xData yData))"

text \<open>The centripetal-acceleration page's function, which has no guard.\<close>

definition linearRegression_centripetal :: "real list \<Rightarrow> real list \<Rightarrow> regression" where
  "linearRegression_centripetal xData yData = regressionFit xData yData"

text \<open>
  Samples that are integers of magnitude up to 3002 (the magnitude that \<open>3x + 2\<close> can have
  for an \<open>x\<close> of magnitude up to 1000): on at most 1000 such samples the five sums of the
  first loop are computed without a rounding error (lemma \<open>fold_sumStep\<close>).
\<close>

definition small_ints :: "real list \<Rightarrow> bool" where
  "small_ints xs = (\<forall>x\<in>set xs. x \<in> \<int> \<and> \<bar>x\<bar> \<le> 3002)"

section \<open>Physical pendulum\<close>

definition g :: real where
  "g = 980"

definition rulerLength :: real where
  "rulerLength = 100"

definition getMomentOfInertia :: "real \<Rightarrow> real" where
  "getMomentOfInertia h = (let L = rulerLength in (L * L / 12) + (h * h))"

definition getAngularAcceleration :: "real \<Rightarrow> real \<Rightarrow> real" where
  "getAngularAcceleration theta h =
     (let I_over_m = getMomentOfInertia h in - (g * h / I_over_m) * sin theta)"

definition getTheoreticalPeriod :: "real \<Rightarrow> jsnum" where
  "getTheoreticalPeriod h =
     (let I_over_m = getMomentOfInertia h
      in jsmul (Num (2 * pi)) (jssqrt (jsdiv (Num I_over_m) (Num (g * h)))))"

text \<open>The state of the pendulum page: its module-level variables.\<close>

record pendulum =
  isRunning :: bool
  simulationTime :: real
  lastFrameTime :: real
  angle :: real
  angularVelocity :: real
  pivotDistance :: real
  initialAngle :: real
  targetPeriods :: int
  completedPeriods :: nat
  hasStartedSwinging :: bool

text \<open>
  \<open>init\<close> reads the pivot distance, the initial angle (degrees) and the period count from
  the page's controls with \<open>parseInt\<close>; the three values read are its parameters here.
\<close>

definition init_pendulum :: "real \<Rightarrow> real \<Rightarrow> int \<Rightarrow> pendulum \<Rightarrow> pendulum" where
  "init_pendulum pd ia tp s =
     s\<lparr>pivotDistance := pd, initialAngle := ia, targetPeriods := tp,
       angle := ia * pi / 180, angularVelocity := 0, completedPeriods := 0,
       hasStartedSwinging := False, simulationTime := 0, lastFrameTime := 0\<rparr>"

text \<open>
  \<open>updatePhysics\<close> is one classical Runge-Kutta step (\<open>rk4Step\<close>, the first part of its
  body) followed by the period-counting state machine (\<open>countPeriod\<close>, the two \<open>if\<close>
  statements that end it), which compares with the angular velocity before the step.
\<close>

definition rk4Step :: "real \<Rightarrow> pendulum \<Rightarrow> pendulum" where
  "rk4Step dt s =
     (let h = pivotDistance s;
          k1v = getAngularAcceleration (angle s) h;
          k1x = angularVelocity s;
          k2v = getAngularAcceleration (angle s + 0.5 * dt * k1x) h;
          k2x = angularVelocity s + 0.5 * dt * k1v;
          k3v = getAngularAcceleration (angle s + 0.5 * dt * k2x) h;
          k3x = angularVelocity s + 0.5 * dt * k2v;
          k4v = getAngularAcceleration (angle s + dt * k3x) h;
          k4x = angularVelocity s + dt * k3v
      in s\<lparr>angle := angle s + (dt / 6) * (k1x + 2 * k2x + 2 * k3x + k4x),
           angularVelocity := angularVelocity s + (dt / 6) * (k1v + 2 * k2v + 2 * k3v + k4v)\<rparr>)"

definition countPeriod :: "real \<Rightarrow> pendulum \<Rightarrow> pendulum" where
  "countPeriod velocityBeforeUpdate s =
     (let s1 = (if \<not> hasStartedSwinging s \<and> \<bar>angularVelocity s\<bar> > 0.001
                then s\<lparr>hasStartedSwinging := True\<rparr> else s)
      in if hasStartedSwinging s1 \<and> velocityBeforeUpdate > 0 \<and> angularVelocity s1 \<le> 0
            \<and> angle s1 > 0
         then s1\<lparr>completedPeriods := completedPeriods s1 + 1\<rparr> else s1)"

definition updatePhysics_pendulum :: "real \<Rightarrow> pendulum \<Rightarrow> pendulum" where
  "updatePhysics_pendulum dt s =
     (let velocityBeforeUpdate = angularVelocity s in countPeriod velocityBeforeUpdate (rk4Step dt s))"

text \<open>The states after each of a sequence of sub-steps, in order.\<close>

fun subStepTrace :: "real list \<Rightarrow> pendulum \<Rightarrow> pendulum list" where
  "subStepTrace [] s = []"
| "subStepTrace (dt # dts) s =
     (let s' = updatePhysics_pendulum dt s in s' # subStepTrace dts s')"

definition stopSimulation :: "pendulum \<Rightarrow> pendulum" where
  "stopSimulation s = s\<lparr>isRunning := False\<rparr>"

definition startSimulation :: "pendulum \<Rightarrow> pendulum" where
  "startSimulation s = (if isRunning s then s else s\<lparr>isRunning := True, lastFrameTime := 0\<rparr>)"

text \<open>The body of the \<open>for\<close> loop of \<open>animate\<close>: one sub-step.\<close>

definition subStep :: "real \<Rightarrow> pendulum \<Rightarrow> pendulum" where
  "subStep dt s =
     (let s' = updatePhysics_pendulum dt s in s'\<lparr>simulationTime := simulationTime s' + dt\<rparr>)"

text \<open>
  The \<open>for\<close> loop of \<open>animate\<close>, from the value \<open>i\<close> of its counter on; the bound
  \<open>actualSteps\<close> is a JavaScript number, and the loop does not end if that is plus infinity
  (the result is then \<open>None\<close>). The counter is returned with the state, so that the number
  of sub-steps a call has executed can be read off.
\<close>

partial_function (option) physicsLoop ::
  "real \<Rightarrow> int \<Rightarrow> jsnum \<Rightarrow> pendulum \<Rightarrow> (int \<times> pendulum) option" where
  "physicsLoop dt i actualSteps s =
     (if jsless (Num (of_int i)) actualSteps
      then physicsLoop dt (i + 1) actualSteps (subStep dt s) else Some (i, s))"

text \<open>
  The sub-stepping of one frame (the body of \<open>animate\<close> from the step size to the loop). The
  literal \<open>0.0005\<close> denotes the double-precision number nearest to it, and the quotient is
  the rounded one.
\<close>

definition runSubSteps :: "jsnum \<Rightarrow> pendulum \<Rightarrow> (int \<times> pendulum) option" where
  "runSubSteps frameElapsed s =
     (let dt = round64 0.0005;
          steps = Math_round (fdiv frameElapsed (Num dt));
          maxSteps = Num 100;
          actualSteps = Math_min steps maxSteps
      in physicsLoop dt 0 actualSteps s)"

definition animate_pendulum :: "real \<Rightarrow> pendulum \<Rightarrow> pendulum option" where
  "animate_pendulum timestamp s =
     (if \<not> isRunning s then Some s
      else
        let s1 = (if lastFrameTime s = 0 then s\<lparr>lastFrameTime := timestamp\<rparr> else s);
            frameElapsed = fdiv (fsub (Num timestamp) (Num (lastFrameTime s1))) (Num 1000);
            s2 = s1\<lparr>lastFrameTime := timestamp\<rparr>
        in map_option
             (\<lambda>(i, s3). if int (completedPeriods s3) \<ge> targetPeriods s3
                        then stopSimulation s3 else s3)
             (runSubSteps frameElapsed s2))"

text \<open>
  The state after the Release button is pressed, the script's variables having their
  initial values (pivot 15 cm from the centre, 10 degrees, 10 periods): \<open>init\<close>, then
  \<open>startSimulation\<close>.
\<close>

definition released :: pendulum where
  "released = startSimulation (init_pendulum 15 10 10
     \<lparr>isRunning = False, simulationTime = 0, lastFrameTime = 0, angle = 0,
      angularVelocity = 0, pivotDistance = 15, initialAngle = 10, targetPeriods = 10,
      completedPeriods = 0, hasStartedSwinging = False\<rparr>)"

text \<open>A JavaScript number lies within \<open>eps\<close> of \<open>c\<close>: it is finite and close to it.\<close>

fun jsnear :: "jsnum \<Rightarrow> real \<Rightarrow> real \<Rightarrow> bool" where
  "jsnear (Num a) c eps = (\<bar>a - c\<bar> \<le> eps)"
| "jsnear PosInf c eps = False"
| "jsnear NegInf c eps = False"
| "jsnear NaN c eps = False"

section \<open>Projectile on the air table\<close>

text \<open>
  The table is the canvas, 5 pixels to the centimetre. The canvas and its size belong to
  the page, so \<open>tableWidth\<close> and \<open>tableHeight\<close> are fields of the state that no operation
  changes. The gravitational constant is the pendulum's \<open>g\<close>, 980 cm per second squared.
\<close>

definition pixelsPerCm :: real where
  "pixelsPerCm = 5"

definition puckRadius :: real where
  "puckRadius = 15"

definition puckRadiusCm :: real where
  "puckRadiusCm = puckRadius / pixelsPerCm"

record airtable =
  tableWidth :: real
  tableHeight :: real
  slopeAngle :: real
  sparkInterval :: real
  puckX :: real
  puckY :: real
  puckVx :: real
  puckVy :: real
  isAnimating_puck :: bool
  lastTime :: real
  lastSparkTime :: real
  launchY :: real
  launchX :: real
  hasMovedFromStart :: bool
  trajectoryComplete :: bool
  maxHeight :: real
  minY :: real
  finalX :: real
  flightTime :: real
  timeToMaxHeight :: real
  simulationTime_puck :: real
  reachedMaxHeight :: bool
  sparkDots :: "(real \<times> real) list"

text \<open>
  \<open>updatePhysics\<close> is a semi-implicit Euler step (\<open>integratePuck\<close>, the velocity and
  position updates) followed by the four boundary checks (\<open>collideWalls\<close>), in the order of
  the source. \<open>slopeAccel\<close> is the acceleration down the slope, which the source computes
  from the slope angle in degrees at each use.
\<close>

definition slopeAccel :: "real \<Rightarrow> real" where
  "slopeAccel degrees = (let slopeRad = degrees * pi / 180 in g * sin slopeRad)"

definition integratePuck :: "real \<Rightarrow> airtable \<Rightarrow> airtable" where
  "integratePuck dt s =
     (let ay = slopeAccel (slopeAngle s);
          ax = 0;
          s1 = s\<lparr>puckVx := puckVx s + ax * dt, puckVy := puckVy s + ay * dt\<rparr>
      in s1\<lparr>puckX := puckX s1 + puckVx s1 * dt, puckY := puckY s1 + puckVy s1 * dt\<rparr>)"

definition collideWalls :: "airtable \<Rightarrow> airtable" where
  "collideWalls s =
     (let margin = puckRadiusCm;
          s1 = (if puckX s < margin
                then s\<lparr>puckX := margin, puckVx := - puckVx s * 0.8\<rparr> else s);
          s2 = (if puckX s1 > tableWidth s1 - margin
                then s1\<lparr>puckX := tableWidth s1 - margin, puckVx := - puckVx s1 * 0.8\<rparr> else s1);
          s3 = (if puckY s2 < margin
                then s2\<lparr>puckY := margin, puckVy := - puckVy s2 * 0.8\<rparr> else s2)
      in if puckY s3 > tableHeight s3 - margin
         then s3\<lparr>puckY := tableHeight s3 - margin, puckVy := - puckVy s3 * 0.8\<rparr> else s3)"

definition updatePhysics_puck :: "real \<Rightarrow> airtable \<Rightarrow> airtable" where
  "updatePhysics_puck dt s = collideWalls (integratePuck dt s)"

text \<open>
  No boundary check fires in the next \<open>k\<close> sub-steps of size \<open>dt\<close>: each time the collision
  pass leaves the integrated state as it is.
\<close>

fun noBounce :: "real \<Rightarrow> nat \<Rightarrow> airtable \<Rightarrow> bool" where
  "noBounce dt 0 s = True"
| "noBounce dt (Suc k) s =
     (collideWalls (integratePuck dt s) = integratePuck dt s
      \<and> noBounce dt k (updatePhysics_puck dt s))"

definition startAnimation_puck :: "airtable \<Rightarrow> airtable" where
  "startAnimation_puck s =
     (if isAnimating_puck s then s
      else s\<lparr>isAnimating_puck := True, lastTime := 0, lastSparkTime := 0,
             launchX := puckX s, launchY := puckY s, minY := puckY s,
             hasMovedFromStart := False, trajectoryComplete := False,
             simulationTime_puck := 0, timeToMaxHeight := 0, flightTime := 0,
             reachedMaxHeight := False, sparkDots := sparkDots s @ [(puckX s, puckY s)]\<rparr>)"

text \<open>
  The \<open>mouseup\<close> handler at the end of a drag of \<open>(dx, dy)\<close> pixels (start minus end): a drag
  longer than 5 pixels launches the puck at 3 cm/s per pixel. The launch angle and the
  copies of the initial velocity that it stores for the drawing are left out.
\<close>

definition mouseup :: "real \<Rightarrow> real \<Rightarrow> airtable \<Rightarrow> airtable" where
  "mouseup dx dy s =
     (let distance = sqrt (dx * dx + dy * dy)
      in if distance > 5
         then let velocityScale = 3
              in startAnimation_puck
                   (s\<lparr>puckVx := (dx / distance) * distance * velocityScale,
                      puckVy := (dy / distance) * distance * velocityScale\<rparr>)
         else s)"

text \<open>
  One animation frame. \<open>frameStart\<close> and \<open>frameDt\<close> are the state and the elapsed time
  with which the frame enters its ten physics sub-steps.
\<close>

definition frameStart :: "real \<Rightarrow> airtable \<Rightarrow> airtable" where
  "frameStart timestamp s =
     (let s1 = (if lastTime s = 0
                then s\<lparr>lastTime := timestamp, lastSparkTime := timestamp\<rparr> else s)
      in s1\<lparr>lastTime := timestamp\<rparr>)"

definition frameDt :: "real \<Rightarrow> airtable \<Rightarrow> real" where
  "frameDt timestamp s =
     (let s1 = (if lastTime s = 0
                then s\<lparr>lastTime := timestamp, lastSparkTime := timestamp\<rparr> else s)
      in (timestamp - lastTime s1) / 1000)"

definition physicsSteps :: nat where
  "physicsSteps = 10"

text \<open>
  The part of \<open>animate\<close> after the sub-steps, statement by statement: the clock, the apex,
  the spark dot, the highest point, the test for having left the launch height, and the two
  ways in which the frame ends the run.
\<close>

definition tickClock :: "real \<Rightarrow> airtable \<Rightarrow> airtable" where
  "tickClock dt s = s\<lparr>simulationTime_puck := simulationTime_puck s + dt\<rparr>"

definition detectApex :: "real \<Rightarrow> airtable \<Rightarrow> airtable" where
  "detectApex prevVy s =
     (if \<not> reachedMaxHeight s \<and> prevVy < 0 \<and> puckVy s \<ge> 0
      then s\<lparr>reachedMaxHeight := True, timeToMaxHeight := simulationTime_puck s\<rparr>
      else s)"

definition addSparkDot :: "real \<Rightarrow> airtable \<Rightarrow> airtable" where
  "addSparkDot timestamp s =
     (if timestamp - lastSparkTime s \<ge> sparkInterval s
      then s\<lparr>sparkDots := sparkDots s @ [(puckX s, puckY s)], lastSparkTime := timestamp\<rparr>
      else s)"

definition trackMinY :: "airtable \<Rightarrow> airtable" where
  "trackMinY s = (if puckY s < minY s then s\<lparr>minY := puckY s\<rparr> else s)"

definition detectMoved :: "airtable \<Rightarrow> airtable" where
  "detectMoved s =
     (if \<not> hasMovedFromStart s \<and> \<bar>puckY s - launchY s\<bar> > 1
      then s\<lparr>hasMovedFromStart := True\<rparr> else s)"

definition detectReturn :: "airtable \<Rightarrow> airtable" where
  "detectReturn s =
     (if hasMovedFromStart s \<and> puckY s \<ge> launchY s
      then s\<lparr>puckY := launchY s, puckVx := 0, puckVy := 0, finalX := puckX s,
             maxHeight := launchY s - minY s, flightTime := simulationTime_puck s,
             sparkDots := sparkDots s @ [(puckX s, launchY s)],
             trajectoryComplete := True, isAnimating_puck := False\<rparr>
      else if puckY s \<ge> tableHeight s - puckRadiusCm - 1
      then s\<lparr>isAnimating_puck := False\<rparr>
      else s)"

definition finishFrame :: "real \<Rightarrow> real \<Rightarrow> real \<Rightarrow> airtable \<Rightarrow> airtable" where
  "finishFrame timestamp dt prevVy s3 =
     detectReturn (detectMoved (trackMinY (addSparkDot timestamp
       (detectApex prevVy (tickClock dt s3)))))"

text \<open>The whole callback, without the drawing.\<close>

definition animate_puck :: "real \<Rightarrow> airtable \<Rightarrow> airtable" where
  "animate_puck timestamp s =
     (if \<not> isAnimating_puck s then s
      else
        let dt = frameDt timestamp s;
            s2 = frameStart timestamp s;
            prevVy = puckVy s2;
            physDt = dt / real physicsSteps;
            s3 = fold (\<lambda>i. updatePhysics_puck physDt) [0..<physicsSteps] s2
        in finishFrame timestamp dt prevVy s3)"

text \<open>
  No boundary check fires in any sub-step of the frames that \<open>animate\<close> runs at the given
  timestamps, one after the other.
\<close>

fun runNoBounce :: "real list \<Rightarrow> airtable \<Rightarrow> bool" where
  "runNoBounce [] s = True"
| "runNoBounce (timestamp # rest) s =
     (if isAnimating_puck s
      then noBounce (frameDt timestamp s / real physicsSteps) physicsSteps (frameStart timestamp s)
           \<and> runNoBounce rest (animate_puck timestamp s)
      else True)"

text \<open>
  The page as it loads on a canvas of 800 by 600 pixels: a slope of 5 degrees, sparks every
  40 ms, the puck at rest in the middle of the upper quarter.
\<close>

definition loadedTable :: airtable where
  "loadedTable =
     \<lparr>tableWidth = 800 / pixelsPerCm, tableHeight = 600 / pixelsPerCm, slopeAngle = 5,
      sparkInterval = 40, puckX = 800 / pixelsPerCm / 2, puckY = 600 / pixelsPerCm / 4,
      puckVx = 0, puckVy = 0, isAnimating_puck = False, lastTime = 0, lastSparkTime = 0,
      launchY = 0, launchX = 0, hasMovedFromStart = False, trajectoryComplete = False,
      maxHeight = 0, minY = 0, finalX = 0, flightTime = 0, timeToMaxHeight = 0,
      simulationTime_puck = 0, reachedMaxHeight = False, sparkDots = []\<rparr>"

section \<open>Centripetal acceleration: the spring, the cylinder and the pendulum\<close>

definition actualRopeLength :: real where
  "actualRopeLength = 75"

definition cylinderMass :: real where
  "cylinderMass = 3.5"

definition smallMass :: real where
  "smallMass = 4.25"

definition naturalSpringLength :: real where
  "naturalSpringLength = 30"

text \<open>
  The page's module-level variables. \<open>x1\<close>, \<open>x2\<close>, \<open>x0\<close> and \<open>x3\<close> are \<open>null\<close> (\<open>None\<close>) until
  they are measured; \<open>extensionDueToMass\<close> is a quotient by the spring constant.
\<close>

record coupled =
  phase :: nat
  x1 :: "real option"
  x2 :: "real option"
  x0 :: "real option"
  x3 :: "real option"
  currentSpringLength :: real
  massMOnlyAttached :: bool
  fullSystemSetup :: bool
  systemSetup :: bool
  isAnimating :: bool
  pendulumAngle :: real
  pendulumAngularVelocity :: real
  releaseAngle :: real
  releaseHeight :: real
  cylinderDisplacement :: real
  maxCylinderDisplacement :: real
  cylinderVelocity :: real
  lastCylinderAccel :: real
  effectiveSpringConstant :: real
  extensionDueToMass :: jsnum

text \<open>\<open>init\<close> reads the spring constant from its slider; the value read is the parameter.\<close>

definition init_coupled :: "real \<Rightarrow> coupled \<Rightarrow> coupled" where
  "init_coupled k s =
     s\<lparr>effectiveSpringConstant := k,
       extensionDueToMass := jsdiv (Num (smallMass * g)) (Num k),
       currentSpringLength := naturalSpringLength\<rparr>"

text \<open>
  \<open>updatePhysics\<close>, in the order of the source: the pendulum swings under the effective
  gravity (\<open>swingPendulum\<close>); the tension of the rope and the forces on the cylinder give
  the cylinder's acceleration (\<open>cylinderAccelNow\<close>); the cylinder moves
  (\<open>integrateCylinder\<close>); the largest displacement is tracked, the displacement is clamped
  and the acceleration is stored (\<open>trackAndClamp\<close>).
\<close>

definition swingPendulum :: "real \<Rightarrow> coupled \<Rightarrow> coupled" where
  "swingPendulum dt s =
     (let effective_g = g + lastCylinderAccel s;
          angularAcceleration = - (effective_g / actualRopeLength) * sin (pendulumAngle s);
          s1 = s\<lparr>pendulumAngularVelocity := pendulumAngularVelocity s + angularAcceleration * dt\<rparr>;
          s2 = s1\<lparr>pendulumAngle := pendulumAngle s1 + pendulumAngularVelocity s1 * dt\<rparr>
      in s2\<lparr>pendulumAngularVelocity := pendulumAngularVelocity s2 * 0.9995\<rparr>)"

text \<open>\<open>x3 || currentSpringLength\<close>: the operand on the right stands in for \<open>null\<close> and for 0.\<close>

definition x3_or_currentSpringLength :: "coupled \<Rightarrow> real" where
  "x3_or_currentSpringLength s =
     (case x3 s of None \<Rightarrow> currentSpringLength s
      | Some v \<Rightarrow> if v = 0 then currentSpringLength s else v)"

definition cylinderAccelNow :: "coupled \<Rightarrow> real" where
  "cylinderAccelNow s =
     (let velocity = pendulumAngularVelocity s * actualRopeLength;
          centripetalAccel = (velocity * velocity) / actualRopeLength;
          tension = smallMass * g * cos (pendulumAngle s) + smallMass * centripetalAccel;
          ropeForceOnCylinder = tension;
          downwardForce = cylinderMass * g + ropeForceOnCylinder;
          restSpringExtension = x3_or_currentSpringLength s - naturalSpringLength;
          totalSpringExtension = restSpringExtension + cylinderDisplacement s;
          upwardSpringForce = effectiveSpringConstant s * totalSpringExtension;
          netForce = downwardForce - upwardSpringForce
      in netForce / cylinderMass)"

definition integrateCylinder :: "real \<Rightarrow> real \<Rightarrow> coupled \<Rightarrow> coupled" where
  "integrateCylinder dt cylinderAccel s =
     (let s1 = s\<lparr>cylinderVelocity := cylinderVelocity s + cylinderAccel * dt\<rparr>;
          s2 = s1\<lparr>cylinderVelocity := cylinderVelocity s1 * 0.95\<rparr>
      in s2\<lparr>cylinderDisplacement := cylinderDisplacement s2 + cylinderVelocity s2 * dt\<rparr>)"

definition trackAndClamp :: "real \<Rightarrow> coupled \<Rightarrow> coupled" where
  "trackAndClamp cylinderAccel s =
     (let s1 = (if \<bar>cylinderDisplacement s\<bar> > maxCylinderDisplacement s
                then s\<lparr>maxCylinderDisplacement := \<bar>cylinderDisplacement s\<bar>\<rparr> else s);
          s2 = s1\<lparr>cylinderDisplacement := max 0 (min 5 (cylinderDisplacement s1))\<rparr>
      in s2\<lparr>lastCylinderAccel := cylinderAccel\<rparr>)"

definition updatePhysics_coupled :: "real \<Rightarrow> coupled \<Rightarrow> coupled" where
  "updatePhysics_coupled dt s =
     (if \<not> isAnimating s then s
      else
        let s1 = swingPendulum dt s;
            cylinderAccel = cylinderAccelNow s1
        in trackAndClamp cylinderAccel (integrateCylinder dt cylinderAccel s1))"

text \<open>
  The displacement of the cylinder in a sub-step before it is clamped, and the list of these
  displacements over a sequence of sub-steps.
\<close>

definition preClampDisplacement :: "real \<Rightarrow> coupled \<Rightarrow> real" where
  "preClampDisplacement dt s =
     (let s1 = swingPendulum dt s
      in cylinderDisplacement (integrateCylinder dt (cylinderAccelNow s1) s1))"

fun preClampTrace :: "real list \<Rightarrow> coupled \<Rightarrow> real list" where
  "preClampTrace [] s = []"
| "preClampTrace (dt # dts) s =
     preClampDisplacement dt s # preClampTrace dts (updatePhysics_coupled dt s)"

text \<open>One animation frame: eight sub-steps of 2 ms.\<close>

definition animate_coupled :: "coupled \<Rightarrow> coupled" where
  "animate_coupled s =
     (if \<not> isAnimating s then s
      else let dt = 0.002 in fold (\<lambda>i. updatePhysics_coupled dt) [0..<8] s)"

definition startAnimation_coupled :: "coupled \<Rightarrow> coupled" where
  "startAnimation_coupled s =
     (if isAnimating s then s
      else s\<lparr>isAnimating := True, maxCylinderDisplacement := 0, cylinderDisplacement := 0,
             cylinderVelocity := 0, pendulumAngle := releaseAngle s,
             pendulumAngularVelocity := 0\<rparr>)"

definition stopAnimation_coupled :: "coupled \<Rightarrow> coupled" where
  "stopAnimation_coupled s = s\<lparr>isAnimating := False\<rparr>"

text \<open>The handler of the Reset Trial button.\<close>

definition resetTrial :: "coupled \<Rightarrow> coupled" where
  "resetTrial s =
     (let s1 = stopAnimation_coupled s
      in s1\<lparr>pendulumAngle := releaseAngle s1, pendulumAngularVelocity := 0,
            cylinderDisplacement := 0, cylinderVelocity := 0, maxCylinderDisplacement := 0\<rparr>)"

definition calculateReleaseAngle :: "real \<Rightarrow> real" where
  "calculateReleaseAngle h =
     (let cosTheta = 1 - h / actualRopeLength
      in if cosTheta < - 1 then pi else if cosTheta > 1 then 0 else arccos cosTheta)"

text \<open>The handler of the release-height slider; the value read from it is the parameter.\<close>

definition hSliderInput :: "real \<Rightarrow> coupled \<Rightarrow> coupled" where
  "hSliderInput h s =
     (let s1 = s\<lparr>releaseHeight := h\<rparr>;
          s2 = s1\<lparr>releaseAngle := calculateReleaseAngle (releaseHeight s1)\<rparr>
      in if systemSetup s2 then s2\<lparr>pendulumAngle := releaseAngle s2\<rparr> else s2)"

text \<open>
  \<open>fullReset\<close>. After the state variables it resets the controls of the page, among them
  \<open>setupSystemBtn\<close>, which the script never declares: unless the page has an element of that
  name the assignment throws, and the statements after it (the release height, the table
  and \<open>init\<close>) do not run. Whether the page has the element is the first parameter.
\<close>

definition fullReset :: "bool \<Rightarrow> coupled \<Rightarrow> coupled" where
  "fullReset hasSetupSystemBtn s =
     (let s1 = stopAnimation_coupled s;
          s2 = s1\<lparr>phase := 1\<rparr>;
          s3 = s2\<lparr>x1 := None, x2 := None, x0 := None, x3 := None,
                 massMOnlyAttached := False, fullSystemSetup := False, systemSetup := False,
                 pendulumAngle := 0, pendulumAngularVelocity := 0, releaseAngle := 0,
                 cylinderDisplacement := 0, cylinderVelocity := 0,
                 maxCylinderDisplacement := 0, lastCylinderAccel := 0\<rparr>;
          defaultK = 2450;
          s4 = s3\<lparr>effectiveSpringConstant := defaultK\<rparr>
      in if hasSetupSystemBtn then init_coupled defaultK (s4\<lparr>releaseHeight := 20\<rparr>) else s4)"

text \<open>
  A trial on a spring of 1000 dynes/cm that is not extended beyond its natural length, the
  pendulum hanging straight down (release height 0), at the moment of the release.
\<close>

definition softSpringTrial :: coupled where
  "softSpringTrial = startAnimation_coupled
     \<lparr>phase = 3, x1 = Some 30, x2 = Some 34.165, x0 = Some 4.165, x3 = Some 30,
      currentSpringLength = 30, massMOnlyAttached = False, fullSystemSetup = True,
      systemSetup = True, isAnimating = False, pendulumAngle = 0,
      pendulumAngularVelocity = 0, releaseAngle = 0, releaseHeight = 0,
      cylinderDisplacement = 0, maxCylinderDisplacement = 0, cylinderVelocity = 0,
      lastCylinderAccel = 0, effectiveSpringConstant = 1000,
      extensionDueToMass = Num 4.165\<rparr>"

text \<open>
  A second trial on the same spring: the first trial has run for one frame when the release
  height is set to 20 cm; then Reset Trial is pressed, and then Release.
\<close>

definition secondTrial :: coupled where
  "secondTrial =
     startAnimation_coupled (resetTrial (hSliderInput 20 (animate_coupled softSpringTrial)))"

section \<open>The theoretical period of the pendulum\<close>

lemma sin_coeff_vals:
  "sin_coeff 0 = 0" "sin_coeff (Suc 0) = 1" "sin_coeff 2 = 0" "sin_coeff 3 = - 1 / 6"
  "sin_coeff 4 = 0" "sin_coeff 5 = 1 / 120" "sin_coeff 6 = 0"
  by (simp_all add: sin_coeff_def fact_numeral)

lemma sin_poly_bound7:
  fixes x :: real
  shows "\<bar>sin x - (x - x^3 / 6 + x^5 / 120)\<bar> \<le> \<bar>x\<bar>^7 / 5040"
proof -
  have "{..<7::nat} = {0, 1, 2, 3, 4, 5, 6}" by auto
  then have "(\<Sum>m<7. sin_coeff m * x ^ m) = x - x^3 / 6 + x^5 / 120"
    by (simp add: sin_coeff_vals)
  moreover have "fact 7 = (5040::real)"
    by (simp add: fact_numeral)
  then have "inverse (fact 7) * \<bar>x\<bar> ^ 7 = \<bar>x\<bar>^7 / 5040"
    by (simp only: inverse_eq_divide)
  ultimately show ?thesis
    using Maclaurin_sin_bound [of x 7] by (simp only:)
qed

lemma pi_lower: "3.1413 < pi"
proof -
  let ?a = "5235.5 / 10000 :: real"
  have "sin ?a \<le> (?a - ?a^3 / 6 + ?a^5 / 120) + \<bar>?a\<bar>^7 / 5040"
    using sin_poly_bound7 [of ?a] by linarith
  also have "\<dots> < 1 / 2" by (simp add: power_divide)
  finally have "sin ?a < sin (pi / 6)" by (simp add: sin_30)
  moreover have "- (pi / 2) \<le> ?a" "?a \<le> pi / 2" "- (pi / 2) \<le> pi / 6" "pi / 6 \<le> pi / 2"
    using pi_ge_two by simp_all
  ultimately have "?a < pi / 6"
    using sin_mono_less_eq [of ?a "pi / 6"] by simp
  then show ?thesis by simp
qed

lemma pi_upper: "pi < 3.1419"
proof -
  let ?b = "5236.5 / 10000 :: real"
  have "(?b - ?b^3 / 6 + ?b^5 / 120) - \<bar>?b\<bar>^7 / 5040 \<le> sin ?b"
    using sin_poly_bound7 [of ?b] by linarith
  moreover have "1 / 2 < (?b - ?b^3 / 6 + ?b^5 / 120) - \<bar>?b\<bar>^7 / 5040" by (simp add: power_divide)
  ultimately have "sin (pi / 6) < sin ?b" by (simp add: sin_30)
  moreover have "- (pi / 2) \<le> ?b" "?b \<le> pi / 2" "- (pi / 2) \<le> pi / 6" "pi / 6 \<le> pi / 2"
    using pi_ge_two by simp_all
  ultimately have "pi / 6 < ?b"
    using sin_mono_less_eq [of "pi / 6" ?b] by simp
  then show ?thesis by simp
qed

lemma sqrt_period_lower: "0.26831 < sqrt (12700 / 176400 :: real)"
  by (rule real_less_rsqrt) (simp add: power2_eq_square)

lemma sqrt_period_upper: "sqrt (12700 / 176400 :: real) < 0.26833"
  by (rule real_less_lsqrt) (simp_all add: power2_eq_square)

lemma getTheoreticalPeriod_15:
  "getTheoreticalPeriod 15 = Num (2 * pi * sqrt (12700 / 176400))"
  by (simp add: getTheoreticalPeriod_def getMomentOfInertia_def rulerLength_def g_def)

lemma period_15_lower: "1.6855 < 2 * pi * sqrt (12700 / 176400 :: real)"
proof -
  have "1.6855 < 2 * (3.1413 :: real) * 0.26831" by simp
  also have "\<dots> \<le> 2 * pi * sqrt (12700 / 176400)"
    using pi_lower sqrt_period_lower by (intro mult_mono) simp_all
  finally show ?thesis .
qed

lemma period_15_upper: "2 * pi * sqrt (12700 / 176400 :: real) < 1.6865"
proof -
  have "2 * pi * sqrt (12700 / 176400) \<le> 2 * (3.1419 :: real) * 0.26833"
    using pi_upper sqrt_period_upper by (intro mult_mono) simp_all
  also have "\<dots> < 1.6865" by simp
  finally show ?thesis .
qed

text \<open>
  Claim C1, as stated: for \<open>h = 15\<close> the theoretical period is about 0.909 s. It is not: the
  value that \<open>getTheoreticalPeriod\<close> computes is farther than half a second from 0.909.
\<close>

theorem theoretical_period_15_not_0909:
  "\<not> jsnear (getTheoreticalPeriod 15) 0.909 0.5"
proof -
  define T :: real where "T = 2 * pi * sqrt (12700 / 176400)"
  have "1.6855 < T"
    unfolding T_def by (rule period_15_lower)
  then have "\<not> \<bar>T - 0.909\<bar> \<le> 0.5"
    by (simp add: abs_if)
  then show ?thesis
    unfolding T_def by (simp only: getTheoreticalPeriod_15 jsnear.simps not_False_eq_True)
qed

text \<open>
  Claim C1, amended: with \<open>L = 100\<close> and \<open>g = 980\<close>, \<open>getTheoreticalPeriod 15\<close>, that is
  \<open>2\<pi>\<surd>((L\<^sup>2/12 + h\<^sup>2)/(g\<cdot>h))\<close>, is 1.686 s to three decimal places.
\<close>

theorem theoretical_period_15:
  "jsnear (getTheoreticalPeriod 15) 1.686 0.0005"
proof -
  define T :: real where "T = 2 * pi * sqrt (12700 / 176400)"
  have "1.6855 < T" "T < 1.6865"
    unfolding T_def by (rule period_15_lower, rule period_15_upper)
  then have "\<bar>T - 1.686\<bar> \<le> 0.0005"
    by (simp add: abs_if)
  then show ?thesis
    unfolding T_def by (simp only: getTheoreticalPeriod_15 jsnear.simps)
qed

section \<open>Rounding to double precision\<close>

text \<open>
  The facts about \<open>round64\<close> that the proofs below use: the exponent \<open>binade x\<close> is the one
  that its description gives; an integer of magnitude up to \<open>2 ^ 53\<close> is rounded to itself;
  rounding does not cross zero, a power of two in the normal range, or an integer of
  magnitude up to \<open>2 ^ 53\<close>.
\<close>

lemma round_ties_even_of_int [simp]: "round_ties_even (of_int n) = n"
  by (simp add: round_ties_even_def)

lemma round_ties_even_le: "x \<le> of_int N \<Longrightarrow> round_ties_even x \<le> N"
  unfolding round_ties_even_def Let_def
  by (auto simp: ) linarith+

lemma round_ties_even_ge: "of_int N \<le> x \<Longrightarrow> N \<le> round_ties_even x"
  unfolding round_ties_even_def Let_def
  by (auto simp: ) linarith+

lemma binade_bounds:
  assumes "x \<noteq> 0"
  shows "2 powi binade x \<le> \<bar>x\<bar>" "\<bar>x\<bar> < 2 powi (binade x + 1)"
proof -
  have "2 powi binade x \<le> \<bar>x\<bar> \<and> \<bar>x\<bar> < 2 powi (binade x + 1)"
  proof (cases "1 \<le> \<bar>x\<bar>")
    case True
    define k where "k = \<lfloor>\<bar>x\<bar>\<rfloor>"
    have k: "0 < k" using True by (simp add: k_def)
    define b where "b = bitlen k"
    from bitlen_bounds [OF k] have bb: "2 ^ nat (b - 1) \<le> k" "k < 2 ^ nat b"
      by (simp_all add: b_def)
    have b1: "1 \<le> b"
      using k bitlen_eq_zero_iff [of k] bitlen_nonneg [of k] unfolding b_def by linarith
    have e: "binade x = b - 1"
      using True by (simp add: binade_def b_def k_def)
    have "(2::real) powi (b - 1) = 2 ^ nat (b - 1)"
      using b1 by (simp add: power_int_def)
    also have "\<dots> \<le> of_int k"
      using bb(1) by (metis of_int_le_iff of_int_numeral of_int_power)
    also have "\<dots> \<le> \<bar>x\<bar>"
      by (simp add: k_def)
    finally have lo: "2 powi binade x \<le> \<bar>x\<bar>" unfolding e .
    have "k + 1 \<le> 2 ^ nat b" using bb(2) by simp
    then have "of_int (k + 1) \<le> (2::real) ^ nat b"
      by (metis of_int_le_iff of_int_numeral of_int_power)
    moreover have "\<bar>x\<bar> < of_int (k + 1)"
      unfolding k_def by linarith
    moreover have "(2::real) powi (b - 1 + 1) = 2 ^ nat b"
      using b1 by (simp add: power_int_def)
    ultimately have "\<bar>x\<bar> < 2 powi (binade x + 1)" unfolding e by simp
    with lo show ?thesis ..
  next
    case False
    define y where "y = 1 / \<bar>x\<bar>"
    have y: "1 < y" using False assms by (simp add: y_def)
    define j where "j = \<lceil>y\<rceil> - 1"
    have j: "0 < j" unfolding j_def using y by linarith
    define b where "b = bitlen j"
    from bitlen_bounds [OF j] have bb: "2 ^ nat (b - 1) \<le> j" "j < 2 ^ nat b"
      by (simp_all add: b_def)
    have b1: "1 \<le> b"
      using j bitlen_eq_zero_iff [of j] bitlen_nonneg [of j] unfolding b_def by linarith
    have e: "binade x = - b"
      using False by (simp add: binade_def b_def j_def y_def)
    have "j + 1 \<le> 2 ^ nat b" using bb(2) by simp
    then have "of_int (j + 1) \<le> (2::real) ^ nat b"
      by (metis of_int_le_iff of_int_numeral of_int_power)
    moreover have "y \<le> of_int (j + 1)"
      unfolding j_def by simp
    ultimately have "y \<le> 2 ^ nat b" by linarith
    then have "1 / 2 ^ nat b \<le> \<bar>x\<bar>"
      using assms by (simp add: y_def field_simps)
    moreover have "(2::real) powi (- b) = 1 / 2 ^ nat b"
      using b1 by (simp add: power_int_def field_simps)
    ultimately have lo: "2 powi binade x \<le> \<bar>x\<bar>" unfolding e by simp
    have "(2::real) ^ nat (b - 1) \<le> of_int j"
      using bb(1) by (metis of_int_le_iff of_int_numeral of_int_power)
    moreover have "of_int j < y"
      unfolding j_def by linarith
    ultimately have "2 ^ nat (b - 1) < y" by linarith
    then have "\<bar>x\<bar> < 1 / 2 ^ nat (b - 1)"
      using assms by (simp add: y_def field_simps)
    moreover have "(2::real) powi (- b + 1) = 1 / 2 ^ nat (b - 1)"
      using b1 by (simp add: power_int_def field_simps nat_diff_distrib)
    ultimately have "\<bar>x\<bar> < 2 powi (binade x + 1)" unfolding e by simp
    with lo show ?thesis ..
  qed
  then show "2 powi binade x \<le> \<bar>x\<bar>" "\<bar>x\<bar> < 2 powi (binade x + 1)"
    by simp_all
qed

lemma pow2_less_cancel: "(2::real) powi a < 2 powi b \<Longrightarrow> a < b"
  using power_int_increasing [of b a "2::real"] by (cases "a < b") simp_all

lemma binade_unique:
  assumes "2 powi e \<le> \<bar>x\<bar>" "\<bar>x\<bar> < 2 powi (e + 1)"
  shows "binade x = e"
proof -
  have "(0::real) < 2 powi e"
    by (simp add: zero_less_power_int)
  with assms(1) have x: "x \<noteq> 0"
    by (cases "x = 0") simp_all
  note b = binade_bounds [OF x]
  have "(2::real) powi e < 2 powi (binade x + 1)"
    using assms(1) b(2) by linarith
  then have 1: "e < binade x + 1"
    by (rule pow2_less_cancel)
  have "(2::real) powi binade x < 2 powi (e + 1)"
    using assms(2) b(1) by linarith
  then have 2: "binade x < e + 1"
    by (rule pow2_less_cancel)
  from 1 2 show ?thesis by simp
qed

lemma pow2_le_cancel: "(2::real) powi a \<le> 2 powi b \<Longrightarrow> a \<le> b"
  using power_int_strict_increasing [of b a "2::real"] by (cases "a \<le> b") simp_all

lemma ulp64_pos [simp]: "0 < ulp64 x"
  by (simp add: ulp64_def zero_less_power_int)

lemma ulp64_nonneg [simp]: "0 \<le> ulp64 x"
  using ulp64_pos [of x] by (rule less_imp_le)

lemma ulp64_nz [simp]: "ulp64 x \<noteq> 0"
  using ulp64_pos [of x] by (rule less_imp_neq [symmetric])

lemma round64_0 [simp]: "round64 0 = 0"
  using round_ties_even_of_int [of 0] by (simp add: round64_def del: round_ties_even_of_int)

lemma round64_exactI: "x / ulp64 x = of_int N \<Longrightarrow> round64 x = x"
proof -
  assume a: "x / ulp64 x = of_int N"
  show ?thesis
    unfolding round64_def a round_ties_even_of_int using a by (simp add: field_simps)
qed

lemma round64_nonneg: "0 \<le> x \<Longrightarrow> 0 \<le> round64 x"
proof -
  assume "0 \<le> x"
  then have "of_int 0 \<le> x / ulp64 x"
    by simp
  then have "0 \<le> round_ties_even (x / ulp64 x)"
    by (rule round_ties_even_ge)
  then show ?thesis
    by (simp add: round64_def)
qed

lemma round64_nonpos: "x \<le> 0 \<Longrightarrow> round64 x \<le> 0"
proof -
  assume "x \<le> 0"
  then have "x / ulp64 x \<le> of_int 0"
    by (simp add: divide_le_0_iff)
  then have "round_ties_even (x / ulp64 x) \<le> 0"
    by (rule round_ties_even_le)
  then show ?thesis
    by (simp add: round64_def mult_le_0_iff)
qed

lemma round64_eval:
  assumes "2 powi e \<le> \<bar>x\<bar>" "\<bar>x\<bar> < 2 powi (e + 1)"
  shows "round64 x = of_int (round_ties_even (x / 2 powi (max e (- 1022) - 52)))
                     * 2 powi (max e (- 1022) - 52)"
  using binade_unique [OF assms] by (simp add: round64_def ulp64_def)

lemma binade_of_int:
  assumes "k \<noteq> 0" "\<bar>k\<bar> \<le> 2 ^ 53"
  shows "0 \<le> binade (of_int k)" "binade (of_int k) \<le> 53"
proof -
  let ?x = "of_int k :: real"
  have x: "?x \<noteq> 0" using assms(1) by simp
  note b = binade_bounds [OF x]
  have "\<bar>?x\<bar> \<le> 2 ^ 53"
    using assms(2) by (metis of_int_abs of_int_le_iff of_int_numeral of_int_power)
  with b(1) have "(2::real) powi binade ?x \<le> 2 powi 53"
    by simp
  then show "binade ?x \<le> 53"
    by (rule pow2_le_cancel)
  have "1 \<le> \<bar>k\<bar>" using assms(1) by simp
  then have "1 \<le> \<bar>?x\<bar>"
    by (metis of_int_abs of_int_1_le_iff)
  with b(2) have "(2::real) powi 0 < 2 powi (binade ?x + 1)"
    by simp
  then have "0 < binade ?x + 1"
    by (rule pow2_less_cancel)
  then show "0 \<le> binade ?x" by simp
qed

lemma round64_of_int:
  assumes "\<bar>k\<bar> \<le> 2 ^ 53"
  shows "round64 (of_int k) = of_int k"
proof (cases "k = 0")
  case True
  then show ?thesis by simp
next
  case False
  let ?x = "of_int k :: real"
  define e where "e = binade ?x"
  note e = binade_of_int [OF False assms, folded e_def]
  have u: "ulp64 ?x = 2 powi (e - 52)"
    using e(1) by (simp add: ulp64_def e_def max_def)
  show ?thesis
  proof (cases "e \<le> 52")
    case True
    have "?x / ulp64 ?x = ?x * 2 powi (52 - e)"
      unfolding u by (simp add: power_int_diff field_simps)
    also have "(2::real) powi (52 - e) = 2 ^ nat (52 - e)"
      using True by (simp add: power_int_def)
    also have "?x * 2 ^ nat (52 - e) = of_int (k * 2 ^ nat (52 - e))"
      by simp
    finally show ?thesis
      by (rule round64_exactI)
  next
    case False
    with e(2) have e53: "e = 53" by simp
    have x: "?x \<noteq> 0" using \<open>k \<noteq> 0\<close> by simp
    from binade_bounds(1) [OF x] have "2 ^ 53 \<le> \<bar>?x\<bar>"
      by (simp add: e_def [symmetric] e53)
    then have "2 ^ 53 \<le> \<bar>k\<bar>"
      by (metis of_int_abs of_int_le_iff of_int_numeral of_int_power)
    with assms have "\<bar>k\<bar> = 2 ^ 53" by simp
    then have "k = 2 ^ 53 \<or> k = - (2 ^ 53)"
      by linarith
    then have "?x / ulp64 ?x = of_int (2 ^ 52) \<or> ?x / ulp64 ?x = of_int (- (2 ^ 52))"
      unfolding u e53 by auto
    then show ?thesis
      using round64_exactI by blast
  qed
qed

lemma round64_abs_le_int:
  assumes "\<bar>x\<bar> \<le> of_int K" "K \<le> 2 ^ 53"
  shows "\<bar>round64 x\<bar> \<le> of_int K"
proof (cases "x = 0")
  case True
  with assms show ?thesis by simp
next
  case False
  define e where "e = max (binade x) (- 1022)"
  have u: "ulp64 x = 2 powi (e - 52)"
    by (simp add: ulp64_def e_def)
  have K53: "of_int K \<le> (2::real) ^ 53"
    using assms(2) by (metis of_int_le_iff of_int_numeral of_int_power)
  have "(2::real) powi binade x \<le> 2 powi 53"
    using binade_bounds(1) [OF False] assms(1) K53 by simp
  then have b53: "binade x \<le> 53"
    by (rule pow2_le_cancel)
  show ?thesis
  proof (cases "e \<le> 52")
    case True
    define M :: int where "M = 2 ^ nat (52 - e)"
    have M: "1 / ulp64 x = of_int M"
      unfolding u M_def using True by (simp add: power_int_def power_int_diff field_simps)
    have "x / ulp64 x = x * (1 / ulp64 x)"
      by simp
    then have xu: "x / ulp64 x = x * of_int M"
      unfolding M .
    have M0: "0 < (of_int M :: real)"
      by (simp add: M_def)
    have "x * of_int M \<le> of_int K * of_int M" "- (of_int K * of_int M) \<le> x * of_int M"
      using assms(1) M0 by (simp_all add: abs_le_iff flip: mult_minus_left)
    then have "x / ulp64 x \<le> of_int (K * M)" "of_int (- (K * M)) \<le> x / ulp64 x"
      unfolding xu by simp_all
    then have "round_ties_even (x / ulp64 x) \<le> K * M" "- (K * M) \<le> round_ties_even (x / ulp64 x)"
      by (simp_all add: round_ties_even_le round_ties_even_ge)
    then have "\<bar>round_ties_even (x / ulp64 x)\<bar> \<le> K * M"
      by simp
    then have "\<bar>of_int (round_ties_even (x / ulp64 x)) :: real\<bar> \<le> of_int (K * M)"
      by (metis of_int_abs of_int_le_iff)
    then have "\<bar>round64 x\<bar> \<le> of_int (K * M) * ulp64 x"
      by (simp add: round64_def abs_mult mult_right_mono)
    also have "\<dots> = of_int K"
      using M ulp64_pos [of x] by (simp add: field_simps)
    finally show ?thesis .
  next
    case False
    with b53 have "binade x = 53"
      by (simp add: e_def max_def split: if_splits)
    with binade_bounds(1) [OF \<open>x \<noteq> 0\<close>] have "2 ^ 53 \<le> \<bar>x\<bar>"
      by simp
    with assms(1) K53 have x: "\<bar>x\<bar> = 2 ^ 53" and K: "of_int K = (2::real) ^ 53"
      by simp_all
    from x have "x = of_int (2 ^ 53) \<or> x = of_int (- (2 ^ 53))"
      by (auto simp: abs_if split: if_splits)
    then have "round64 x = x"
      using round64_of_int [of "2 ^ 53"] round64_of_int [of "- (2 ^ 53)"] by auto
    with assms(1) show ?thesis by simp
  qed
qed

lemma round64_ge_pow2:
  assumes "2 powi j \<le> x" "- 1022 \<le> j"
  shows "2 powi j \<le> round64 x"
proof -
  have pos: "(0::real) < 2 powi j"
    by (simp add: zero_less_power_int)
  with assms(1) have "0 < x"
    by linarith
  then have x: "x \<noteq> 0" "\<bar>x\<bar> = x"
    by simp_all
  define e where "e = binade x"
  note b = binade_bounds [OF x(1), folded e_def, unfolded x(2)]
  have "(2::real) powi j < 2 powi (e + 1)"
    using assms(1) b(2) by simp
  then have je: "j \<le> e"
    using pow2_less_cancel by fastforce
  with assms(2) have "max (binade x) (- 1022) = e"
    by (simp add: e_def)
  then have u: "ulp64 x = 2 powi (e - 52)"
    by (simp add: ulp64_def)
  have "of_int (2 ^ 52) = (2::real) powi e / ulp64 x"
    unfolding u by (simp add: power_int_diff)
  also have "\<dots> \<le> x / ulp64 x"
    using b(1) by (simp add: divide_right_mono)
  finally have "2 ^ 52 \<le> round_ties_even (x / ulp64 x)"
    by (rule round_ties_even_ge)
  then have "(2::real) ^ 52 \<le> of_int (round_ties_even (x / ulp64 x))"
    by (metis of_int_le_iff of_int_numeral of_int_power)
  then have "2 ^ 52 * ulp64 x \<le> round64 x"
    by (simp add: round64_def mult_right_mono)
  moreover have "2 ^ 52 * ulp64 x = (2::real) powi e"
    unfolding u by (simp add: power_int_diff)
  moreover have "(2::real) powi j \<le> 2 powi e"
    using je by (simp add: power_int_increasing)
  ultimately show ?thesis by simp
qed

lemma round64_le_neg_pow2:
  assumes "x \<le> - (2 powi j)" "- 1022 \<le> j"
  shows "round64 x \<le> - (2 powi j)"
proof -
  have pos: "(0::real) < 2 powi j"
    by (simp add: zero_less_power_int)
  with assms(1) have "x < 0"
    by linarith
  then have x: "x \<noteq> 0" "\<bar>x\<bar> = - x"
    by simp_all
  define e where "e = binade x"
  note b = binade_bounds [OF x(1), folded e_def, unfolded x(2)]
  have "(2::real) powi j < 2 powi (e + 1)"
    using assms(1) b(2) by simp
  then have je: "j \<le> e"
    using pow2_less_cancel by fastforce
  with assms(2) have "max (binade x) (- 1022) = e"
    by (simp add: e_def)
  then have u: "ulp64 x = 2 powi (e - 52)"
    by (simp add: ulp64_def)
  have "x \<le> - ((2::real) powi e)"
    using b(1) by linarith
  then have "x / ulp64 x \<le> - ((2::real) powi e) / ulp64 x"
    by (rule divide_right_mono) simp
  also have "\<dots> = of_int (- (2 ^ 52))"
    unfolding u by (simp add: power_int_diff)
  finally have "round_ties_even (x / ulp64 x) \<le> - (2 ^ 52)"
    by (rule round_ties_even_le)
  then have "of_int (round_ties_even (x / ulp64 x)) \<le> - ((2::real) ^ 52)"
    by (metis of_int_le_iff of_int_minus of_int_numeral of_int_power)
  then have "of_int (round_ties_even (x / ulp64 x)) * ulp64 x \<le> - ((2::real) ^ 52) * ulp64 x"
    by (rule mult_right_mono) simp
  then have "round64 x \<le> - (2 ^ 52) * ulp64 x"
    by (simp add: round64_def)
  moreover have "2 ^ 52 * ulp64 x = (2::real) powi e"
    unfolding u by (simp add: power_int_diff)
  moreover have "(2::real) powi j \<le> 2 powi e"
    using je by (simp add: power_int_increasing)
  ultimately show ?thesis by simp
qed

lemma fl64_finite:
  assumes "\<bar>x\<bar> \<le> of_int K" "K \<le> 2 ^ 53"
  shows "fl64 x = Num (round64 x)"
proof -
  have "\<bar>round64 x\<bar> \<le> of_int K"
    using assms by (rule round64_abs_le_int)
  also have "of_int K \<le> (2::real) ^ 53"
    using assms(2) by (metis of_int_le_iff of_int_numeral of_int_power)
  also have "(2::real) ^ 53 < 2 ^ 1024"
    by simp
  finally show ?thesis
    by (simp add: fl64_def)
qed

lemma fl64_of_int:
  assumes "\<bar>k\<bar> \<le> 2 ^ 53"
  shows "fl64 (of_int k) = Num (of_int k)"
proof -
  have "\<bar>of_int k :: real\<bar> \<le> of_int \<bar>k\<bar>"
    by simp
  from fl64_finite [OF this assms] show ?thesis
    by (simp add: round64_of_int [OF assms])
qed

section \<open>Sub-steps per animation frame\<close>

lemma physicsLoop_Num:
  "physicsLoop dt i (Num (of_int n)) s = Some (max i n, (subStep dt ^^ nat (n - i)) s)"
proof (induction "nat (n - i)" arbitrary: i s)
  case 0
  then have "\<not> i < n" by simp
  then show ?case
    by (subst physicsLoop.simps) (simp add: max_def)
next
  case (Suc k)
  then have lt: "i < n" and k: "k = nat (n - (i + 1))"
    by simp_all
  have n: "nat (n - i) = Suc (nat (n - (i + 1)))"
    using lt by simp
  show ?case
    using lt Suc.hyps(1) [OF k, of "subStep dt s"]
    by (subst physicsLoop.simps) (simp add: n funpow_swap1 max_def)
qed

lemma physicsLoop_no_bound:
  "physicsLoop dt i NaN s = Some (i, s)" "physicsLoop dt i NegInf s = Some (i, s)"
  by (subst physicsLoop.simps, simp)+

lemma round64_dt_pos: "0 < round64 0.0005"
proof -
  have "round64 0.0005 = 4611686018427388 / 2 ^ 63"
    by (simp add: round64_eval [where e = "- 11"] round_ties_even_def Let_def)
  then show ?thesis by simp
qed

lemma fl64_nonneg:
  assumes "0 \<le> y"
  shows "fl64 y = PosInf \<or> (\<exists>r\<ge>0. fl64 y = Num r)"
proof (cases "y = 0")
  case True
  then show ?thesis by (simp add: fl64_def)
next
  case False
  with assms have "0 < y" by simp
  then show ?thesis
    using round64_nonneg [OF assms] by (simp add: fl64_def)
qed

lemma actualSteps_cases:
  "Math_min (Math_round q) (Num 100) = NaN \<or> Math_min (Math_round q) (Num 100) = NegInf
   \<or> (\<exists>m\<le>100. Math_min (Math_round q) (Num 100) = Num (of_int m))"
proof (cases q)
  case (Num x)
  show ?thesis
  proof (cases "100 < \<lfloor>x + 0.5\<rfloor>")
    case True
    then have "Math_min (Math_round q) (Num 100) = Num (of_int 100)"
      by (simp add: Num)
    then show ?thesis by blast
  next
    case False
    then have "Math_min (Math_round q) (Num 100) = Num (of_int \<lfloor>x + 0.5\<rfloor>)"
      "\<lfloor>x + 0.5\<rfloor> \<le> 100"
      by (simp_all add: Num)
    then show ?thesis by blast
  qed
next
  case PosInf
  then have "Math_min (Math_round q) (Num 100) = Num (of_int 100)"
    by simp
  then show ?thesis by blast
qed simp_all

lemma actualSteps_nonneg:
  assumes f: "jsless (Num 0) f \<or> f = Num 0" and d: "0 < d"
  shows "\<exists>m\<ge>0. Math_min (Math_round (fdiv f (Num d))) (Num 100) = Num (of_int m)"
proof -
  have q: "fdiv f (Num d) = PosInf \<or> (\<exists>r\<ge>0. fdiv f (Num d) = Num r)"
  proof (cases f)
    case (Num x)
    with f have "0 \<le> x" by auto
    with d have "0 \<le> x / d"
      by simp
    from fl64_nonneg [OF this] show ?thesis
      using d by (simp add: Num fdiv_def)
  next
    case PosInf
    then show ?thesis
      using d by (simp add: fdiv_def jsinf_def)
  next
    case NegInf
    with f show ?thesis by simp
  next
    case NaN
    with f show ?thesis by simp
  qed
  then show ?thesis
  proof
    assume "fdiv f (Num d) = PosInf"
    then have "Math_min (Math_round (fdiv f (Num d))) (Num 100) = Num (of_int 100)"
      by simp
    then show ?thesis by (intro exI [of _ 100]) simp
  next
    assume "\<exists>r\<ge>0. fdiv f (Num d) = Num r"
    then obtain r where r: "0 \<le> r" "fdiv f (Num d) = Num r"
      by blast
    have fl: "0 \<le> \<lfloor>r + 0.5\<rfloor>"
      using r(1) by simp
    show ?thesis
    proof (cases "100 < \<lfloor>r + 0.5\<rfloor>")
      case True
      then have "Math_min (Math_round (fdiv f (Num d))) (Num 100) = Num (of_int 100)"
        by (simp add: r(2))
      then show ?thesis by (intro exI [of _ 100]) simp
    next
      case False
      then have "Math_min (Math_round (fdiv f (Num d))) (Num 100)
                 = Num (of_int \<lfloor>r + 0.5\<rfloor>)"
        by (simp add: r(2))
      with fl show ?thesis by blast
    qed
  qed
qed

text \<open>
  Claim C8: for every elapsed frame interval \<open>f\<close>, one call of the pendulum's \<open>animate\<close>
  leaves its loop, after a number \<open>k\<close> of sub-steps that is at most 100, each of them
  \<open>updatePhysics\<close> and the advance of the clock with the step \<open>0.0005\<close>; for an interval that
  is not negative, \<open>k\<close> is \<open>Math.min(Math.round(f / 0.0005), 100)\<close>, the quotient being the
  double-precision one.
\<close>

theorem substeps_per_frame:
  "\<exists>k s'. runSubSteps f s = Some (k, s') \<and> 0 \<le> k \<and> k \<le> 100
      \<and> s' = (subStep (round64 0.0005) ^^ nat k) s
      \<and> (jsless (Num 0) f \<or> f = Num 0 \<longrightarrow>
           Num (of_int k) = Math_min (Math_round (fdiv f (Num (round64 0.0005)))) (Num 100))"
proof -
  define d where "d = round64 0.0005"
  define a where "a = Math_min (Math_round (fdiv f (Num d))) (Num 100)"
  have d: "0 < d"
    unfolding d_def by (rule round64_dt_pos)
  have run: "runSubSteps f s = physicsLoop d 0 a s"
    unfolding runSubSteps_def Let_def a_def d_def ..
  from actualSteps_cases [of "fdiv f (Num d)"]
  consider "a = NaN \<or> a = NegInf" | m where "m \<le> 100" "a = Num (of_int m)"
    unfolding a_def by blast
  then have "\<exists>k s'. runSubSteps f s = Some (k, s') \<and> 0 \<le> k \<and> k \<le> 100
      \<and> s' = (subStep d ^^ nat k) s
      \<and> (jsless (Num 0) f \<or> f = Num 0 \<longrightarrow> Num (of_int k) = a)"
  proof cases
    case 1
    then have "runSubSteps f s = Some (0, s)"
      unfolding run by (auto simp: physicsLoop_no_bound)
    moreover have "\<not> (jsless (Num 0) f \<or> f = Num 0)"
      using actualSteps_nonneg [of f d] d 1 unfolding a_def by auto
    ultimately show ?thesis by simp
  next
    case 2
    have "runSubSteps f s = Some (max 0 m, (subStep d ^^ nat m) s)"
      unfolding run 2(2) by (simp add: physicsLoop_Num)
    moreover have "nat (max 0 m) = nat m"
      by (simp add: max_def)
    moreover have "jsless (Num 0) f \<or> f = Num 0 \<longrightarrow> max 0 m = m"
      using actualSteps_nonneg [of f d] d 2(2) unfolding a_def by auto
    ultimately show ?thesis
      using 2 by auto
  qed
  then show ?thesis
    unfolding a_def d_def .
qed

text \<open>
  A frame of 10.75 ms runs 21 sub-steps (the quotient is rounded to a number below 21.5);
  after a stall of 5 s a call runs 100.
\<close>

lemma round64_frame: "round64 0.01075 = 3098476543630901 / 2 ^ 58"
  by (simp add: round64_eval [where e = "- 7"] round_ties_even_def Let_def)

lemma round64_dt: "round64 0.0005 = 4611686018427388 / 2 ^ 63"
  by (simp add: round64_eval [where e = "- 11"] round_ties_even_def Let_def)

lemma frame_quotients:
  "Math_min (Math_round (fdiv (Num (round64 0.01075)) (Num (round64 0.0005)))) (Num 100) = Num 21"
  "Math_min (Math_round (fdiv (Num 5) (Num (round64 0.0005)))) (Num 100) = Num 100"
  "jsless (Num 0) (Num (round64 0.01075))"
proof -
  have "fdiv (Num (round64 0.01075)) (Num (round64 0.0005)) = Num (6051711999279103 / 2 ^ 48)"
    unfolding round64_frame round64_dt
    by (simp add: fdiv_def fl64_def round64_eval [where e = 4] round_ties_even_def Let_def)
  then show "Math_min (Math_round (fdiv (Num (round64 0.01075)) (Num (round64 0.0005))))
               (Num 100) = Num 21"
    by simp
  have "fdiv (Num 5) (Num (round64 0.0005)) = Num 10000"
    unfolding round64_dt
    by (simp add: fdiv_def fl64_def round64_eval [where e = 13] round_ties_even_def Let_def)
  then show "Math_min (Math_round (fdiv (Num 5) (Num (round64 0.0005)))) (Num 100) = Num 100"
    by simp
  show "jsless (Num 0) (Num (round64 0.01075))"
    unfolding round64_frame by simp
qed

theorem substeps_per_frame_witness:
  "jsless (Num 0) (Num (round64 0.01075))
   \<and> (\<exists>s'. runSubSteps (Num (round64 0.01075)) released = Some (21, s'))
   \<and> jsless (Num 0) (Num 5)
   \<and> (\<exists>s'. runSubSteps (Num 5) released = Some (100, s'))"
proof -
  from substeps_per_frame [of "Num (round64 0.01075)" released] frame_quotients(1,3)
  obtain k s' where "runSubSteps (Num (round64 0.01075)) released = Some (k, s')"
    "Num (of_int k) = Num 21"
    by (auto simp only: simp_thms)
  then have 1: "\<exists>s'. runSubSteps (Num (round64 0.01075)) released = Some (21, s')"
    by auto
  have pos: "jsless (Num 0) (Num 5)"
    by simp
  from substeps_per_frame [of "Num 5" released] frame_quotients(2) pos
  obtain k s' where "runSubSteps (Num 5) released = Some (k, s')"
    "Num (of_int k) = Num 100"
    by (auto simp only: simp_thms)
  then have 2: "\<exists>s'. runSubSteps (Num 5) released = Some (100, s')"
    by auto
  from frame_quotients(3) 1 pos 2 show ?thesis
    by (simp only: simp_thms)
qed

section \<open>Period counting\<close>

lemma rk4Step_unchanged [simp]:
  "simulationTime (rk4Step dt s) = simulationTime s"
  "hasStartedSwinging (rk4Step dt s) = hasStartedSwinging s"
  "completedPeriods (rk4Step dt s) = completedPeriods s"
  by (simp_all add: rk4Step_def Let_def)

lemma countPeriod_unchanged [simp]:
  "simulationTime (countPeriod v s) = simulationTime s"
  "angularVelocity (countPeriod v s) = angularVelocity s"
  "angle (countPeriod v s) = angle s"
  by (simp_all add: countPeriod_def Let_def)

lemma countPeriod_flag:
  "hasStartedSwinging (countPeriod v s) = (hasStartedSwinging s \<or> 0.001 < \<bar>angularVelocity s\<bar>)"
proof -
  have "hasStartedSwinging (if c then t\<lparr>completedPeriods := n\<rparr> else t) = hasStartedSwinging t"
    for c n and t :: pendulum
    by simp
  then show ?thesis
    unfolding countPeriod_def Let_def by (simp only:) auto
qed

lemma countPeriod_count:
  "completedPeriods (countPeriod v s)
   = completedPeriods s +
     (if 0 < v \<and> angularVelocity s \<le> 0 \<and> 0 < angle s
         \<and> (hasStartedSwinging s \<or> 0.001 < \<bar>angularVelocity s\<bar>) then 1 else 0)"
proof (cases "hasStartedSwinging s")
  case True
  then show ?thesis
    by (simp add: countPeriod_def Let_def)
next
  case False
  then show ?thesis
    by (cases "0.001 < \<bar>angularVelocity s\<bar>") (simp_all add: countPeriod_def Let_def)
qed

lemma updatePhysics_pendulum_flag:
  "hasStartedSwinging (updatePhysics_pendulum dt s)
   = (hasStartedSwinging s \<or> 0.001 < \<bar>angularVelocity (updatePhysics_pendulum dt s)\<bar>)"
  by (simp add: updatePhysics_pendulum_def Let_def countPeriod_flag)

lemma updatePhysics_pendulum_count:
  "completedPeriods (updatePhysics_pendulum dt s)
   = completedPeriods s +
     (if 0 < angularVelocity s \<and> angularVelocity (updatePhysics_pendulum dt s) \<le> 0
         \<and> 0 < angle (updatePhysics_pendulum dt s)
         \<and> hasStartedSwinging (updatePhysics_pendulum dt s) then 1 else 0)"
  by (simp add: updatePhysics_pendulum_def Let_def countPeriod_flag countPeriod_count)

lemma length_subStepTrace [simp]: "length (subStepTrace dts s) = length dts"
  by (induction dts arbitrary: s) (simp_all add: Let_def)

lemma subStepTrace_nth:
  "k < length dts \<Longrightarrow>
   subStepTrace dts s ! k = updatePhysics_pendulum (dts ! k) ((s # subStepTrace dts s) ! k)"
proof (induction dts arbitrary: s k)
  case Nil
  then show ?case by simp
next
  case (Cons dt dts)
  show ?case
  proof (cases k)
    case 0
    then show ?thesis by (simp add: Let_def)
  next
    case (Suc k')
    with Cons.prems have "k' < length dts" by simp
    from Cons.IH [OF this, of "updatePhysics_pendulum dt s"] Suc
    show ?thesis by (simp add: Let_def)
  qed
qed

lemma subStepTrace_flag:
  "k < length dts \<Longrightarrow>
   hasStartedSwinging (subStepTrace dts s ! k)
   = (hasStartedSwinging s \<or> (\<exists>j\<le>k. 0.001 < \<bar>angularVelocity (subStepTrace dts s ! j)\<bar>))"
proof (induction dts arbitrary: s k)
  case Nil
  then show ?case by simp
next
  case (Cons dt dts)
  let ?s' = "updatePhysics_pendulum dt s"
  show ?case
  proof (cases k)
    case 0
    then show ?thesis
      using updatePhysics_pendulum_flag [of dt s] by (simp add: Let_def)
  next
    case (Suc k')
    with Cons.prems have k': "k' < length dts" by simp
    have ex: "(\<exists>j\<le>Suc k'. P j) = (P 0 \<or> (\<exists>j\<le>k'. P (Suc j)))" for P
      by (metis Suc_le_mono le0 not0_implies_Suc)
    show ?thesis
      using Cons.IH [OF k', of ?s'] updatePhysics_pendulum_flag [of dt s] Suc
      by (auto simp add: Let_def ex)
  qed
qed

text \<open>
  Claim C6: in a run of sub-steps that starts before any swinging has been observed (as
  \<open>init\<close> leaves the state), \<open>completedPeriods\<close> grows by one in a sub-step exactly when
  the angular velocity was positive before the step and is not positive after it, the angle
  after it is positive, and the magnitude of the angular velocity has exceeded 0.001 after
  this or an earlier sub-step; otherwise it stays as it is. In particular a sub-step from a
  velocity of exactly zero counts no period.
\<close>

theorem period_counted_at_turning_point:
  assumes "\<not> hasStartedSwinging s"
  shows "(\<forall>k<length dts.
           completedPeriods (subStepTrace dts s ! k)
           = completedPeriods ((s # subStepTrace dts s) ! k) +
             (if 0 < angularVelocity ((s # subStepTrace dts s) ! k)
                 \<and> angularVelocity (subStepTrace dts s ! k) \<le> 0
                 \<and> 0 < angle (subStepTrace dts s ! k)
                 \<and> (\<exists>j\<le>k. 0.001 < \<bar>angularVelocity (subStepTrace dts s ! j)\<bar>)
              then 1 else 0))
         \<and> (angularVelocity s = 0 \<longrightarrow>
              completedPeriods (updatePhysics_pendulum dt s) = completedPeriods s)"
proof (intro conjI allI impI)
  fix k assume k: "k < length dts"
  show "completedPeriods (subStepTrace dts s ! k)
           = completedPeriods ((s # subStepTrace dts s) ! k) +
             (if 0 < angularVelocity ((s # subStepTrace dts s) ! k)
                 \<and> angularVelocity (subStepTrace dts s ! k) \<le> 0
                 \<and> 0 < angle (subStepTrace dts s ! k)
                 \<and> (\<exists>j\<le>k. 0.001 < \<bar>angularVelocity (subStepTrace dts s ! j)\<bar>)
              then 1 else 0)"
    using updatePhysics_pendulum_count [of "dts ! k" "(s # subStepTrace dts s) ! k"]
    unfolding subStepTrace_nth [OF k, symmetric] subStepTrace_flag [OF k, of s]
    using assms by simp
next
  assume "angularVelocity s = 0"
  then show "completedPeriods (updatePhysics_pendulum dt s) = completedPeriods s"
    by (simp add: updatePhysics_pendulum_count)
qed

text \<open>The first sub-steps after the release with the default controls count nothing.\<close>

theorem period_counted_at_turning_point_witness:
  "\<not> hasStartedSwinging released \<and> angularVelocity released = 0
   \<and> completedPeriods (updatePhysics_pendulum 0.0005 released) = 0
   \<and> completedPeriods (subStepTrace [0.0005, 0.0005] released ! 0) = 0"
proof -
  have r: "\<not> hasStartedSwinging released" "angularVelocity released = 0"
    "completedPeriods released = 0"
    by (simp_all add: released_def startSimulation_def init_pendulum_def)
  from period_counted_at_turning_point [OF r(1), of "[0.0005, 0.0005]" "0.0005"] r
  show ?thesis by (simp add: Let_def)
qed

section \<open>Linear regression\<close>

text \<open>An integer of magnitude up to \<open>2 ^ 53\<close> is a double-precision number.\<close>

lemma round64_Ints:
  assumes "x \<in> \<int>" "\<bar>x\<bar> \<le> 2 ^ 53"
  shows "round64 x = x"
proof -
  from assms(1) obtain k where x: "x = of_int k"
    by (auto elim: Ints_cases)
  with assms(2) have "\<bar>of_int k :: real\<bar> \<le> 2 ^ 53"
    by simp
  then have "\<bar>k\<bar> \<le> 2 ^ 53"
    by (metis of_int_abs of_int_le_iff of_int_numeral of_int_power)
  then show ?thesis
    unfolding x by (rule round64_of_int)
qed

lemma fl64_Ints:
  assumes "x \<in> \<int>" "\<bar>x\<bar> \<le> 2 ^ 53"
  shows "fl64 x = Num x"
proof -
  have "\<bar>x\<bar> < 2 ^ 1024"
    using assms(2) by (rule le_less_trans) simp
  then show ?thesis
    by (simp add: fl64_def round64_Ints [OF assms])
qed

lemma jssub_Num [simp]: "jssub (Num a) (Num b) = Num (a - b)"
  by (simp add: jssub_def)

lemma fadd_exact: "a + b \<in> \<int> \<Longrightarrow> \<bar>a + b\<bar> \<le> 2 ^ 53 \<Longrightarrow> fadd (Num a) (Num b) = Num (a + b)"
  by (simp add: fadd_def fl64_Ints)

lemma fsub_exact: "a - b \<in> \<int> \<Longrightarrow> \<bar>a - b\<bar> \<le> 2 ^ 53 \<Longrightarrow> fsub (Num a) (Num b) = Num (a - b)"
  by (simp add: fsub_def fl64_Ints)

lemma fmul_exact: "a * b \<in> \<int> \<Longrightarrow> \<bar>a * b\<bar> \<le> 2 ^ 53 \<Longrightarrow> fmul (Num a) (Num b) = Num (a * b)"
  by (simp add: fmul_def fl64_Ints)

lemma jsidx_Num: "i < length xs \<Longrightarrow> jsidx xs i = Num (xs ! i)"
  by (simp add: jsidx_def)

lemma sum_abs_bound:
  fixes f :: "nat \<Rightarrow> real"
  assumes "\<forall>i<m. \<bar>f i\<bar> \<le> C"
  shows "\<bar>\<Sum>i<m. f i\<bar> \<le> real m * C"
proof -
  have "\<bar>\<Sum>i<m. f i\<bar> \<le> (\<Sum>i<m. \<bar>f i\<bar>)"
    by (rule sum_abs)
  also have "\<dots> \<le> of_nat (card {..<m}) * C"
    using assms by (intro sum_bounded_above) simp
  finally show ?thesis by simp
qed

lemma abs_mult_bound:
  fixes a b :: real
  assumes "\<bar>a\<bar> \<le> A" "\<bar>b\<bar> \<le> B"
  shows "\<bar>a * b\<bar> \<le> A * B"
  unfolding abs_mult using assms by (intro mult_mono) simp_all

lemma small_ints_nth: "small_ints xs \<Longrightarrow> i < length xs \<Longrightarrow> xs ! i \<in> \<int> \<and> \<bar>xs ! i\<bar> \<le> 3002"
  by (simp add: small_ints_def)

lemma partial_sum_exact:
  fixes f :: "nat \<Rightarrow> real"
  assumes "\<forall>i<m. f i \<in> \<int> \<and> \<bar>f i\<bar> \<le> C" "m \<le> 1000" "C \<le> 9012004"
  shows "(\<Sum>i<m. f i) \<in> \<int>" "\<bar>\<Sum>i<m. f i\<bar> \<le> 2 ^ 53"
proof -
  show "(\<Sum>i<m. f i) \<in> \<int>"
    using assms(1) by (intro Ints_sum) simp
  have C: "0 \<le> C \<or> m = 0"
    using assms(1) by (cases m) (auto intro: order_trans [OF abs_ge_zero])
  have "\<bar>\<Sum>i<m. f i\<bar> \<le> real m * C"
    using assms(1) by (intro sum_abs_bound) simp
  also have "\<dots> \<le> 1000 * 9012004"
  proof (cases "m = 0")
    case True
    then show ?thesis by simp
  next
    case False
    with C have "0 \<le> C" by simp
    moreover have "real m \<le> 1000"
      using assms(2) by simp
    ultimately show ?thesis
      using assms(3) by (intro mult_mono) simp_all
  qed
  finally show "\<bar>\<Sum>i<m. f i\<bar> \<le> 2 ^ 53"
    by simp
qed

lemma fold_sumStep:
  assumes len: "length ys = length xs" and n: "length xs \<le> 1000"
    and xs: "small_ints xs" and ys: "small_ints ys"
  shows "k \<le> length xs \<Longrightarrow>
    fold (sumStep xs ys) [0..<k]
      \<lparr>sumX = Num 0, sumY = Num 0, sumXY = Num 0, sumX2 = Num 0, sumY2 = Num 0\<rparr>
    = \<lparr>sumX = Num (\<Sum>i<k. xs ! i), sumY = Num (\<Sum>i<k. ys ! i),
       sumXY = Num (\<Sum>i<k. xs ! i * ys ! i), sumX2 = Num (\<Sum>i<k. xs ! i * xs ! i),
       sumY2 = Num (\<Sum>i<k. ys ! i * ys ! i)\<rparr>"
proof (induction k)
  case 0
  show ?case by simp
next
  case (Suc k)
  then have k: "k < length xs" "k < length ys" "k \<le> length xs" "Suc k \<le> 1000"
    using len n by simp_all
  have el: "xs ! i \<in> \<int> \<and> \<bar>xs ! i\<bar> \<le> 3002" "ys ! i \<in> \<int> \<and> \<bar>ys ! i\<bar> \<le> 3002"
    if "i < Suc k" for i
    using that k small_ints_nth [OF xs, of i] small_ints_nth [OF ys, of i] len by simp_all
  have pr: "a * b \<in> \<int> \<and> \<bar>a * b\<bar> \<le> 9012004"
    if "a \<in> \<int> \<and> \<bar>a\<bar> \<le> 3002" "b \<in> \<int> \<and> \<bar>b\<bar> \<le> 3002" for a b :: real
    using that abs_mult_bound [of a 3002 b 3002] by simp
  have x: "\<forall>i<Suc k. xs ! i \<in> \<int> \<and> \<bar>xs ! i\<bar> \<le> 3002"
    and y: "\<forall>i<Suc k. ys ! i \<in> \<int> \<and> \<bar>ys ! i\<bar> \<le> 3002"
    and xy: "\<forall>i<Suc k. xs ! i * ys ! i \<in> \<int> \<and> \<bar>xs ! i * ys ! i\<bar> \<le> 9012004"
    and xx: "\<forall>i<Suc k. xs ! i * xs ! i \<in> \<int> \<and> \<bar>xs ! i * xs ! i\<bar> \<le> 9012004"
    and yy: "\<forall>i<Suc k. ys ! i * ys ! i \<in> \<int> \<and> \<bar>ys ! i * ys ! i\<bar> \<le> 9012004"
    using el pr by blast+
  note sums = partial_sum_exact [OF x k(4), simplified] partial_sum_exact [OF y k(4), simplified]
    partial_sum_exact [OF xy k(4), simplified] partial_sum_exact [OF xx k(4), simplified]
    partial_sum_exact [OF yy k(4), simplified]
  have prod: "fmul (Num (xs ! k)) (Num (ys ! k)) = Num (xs ! k * ys ! k)"
    "fmul (Num (xs ! k)) (Num (xs ! k)) = Num (xs ! k * xs ! k)"
    "fmul (Num (ys ! k)) (Num (ys ! k)) = Num (ys ! k * ys ! k)"
    using pr [OF el(1) el(2), of k k] pr [OF el(1) el(1), of k k] pr [OF el(2) el(2), of k k]
    by (simp_all add: fmul_exact)
  show ?case
    using Suc.IH [OF k(3)] k(1,2) sums
    by (simp add: sumStep_def jsidx_Num prod fadd_exact)
qed

lemma rounded_NaN_iff [simp]: "fadd a NaN = NaN" "fadd NaN a = NaN" "fsub a NaN = NaN"
  "fsub NaN a = NaN" "fmul a NaN = NaN" "fmul NaN a = NaN" "fdiv a NaN = NaN" "fdiv NaN a = NaN"
  by (cases a; simp add: fadd_def fsub_def fmul_def fdiv_def jssub_def)+

lemma ssStep_NaN:
  "snd (ssStep xs ys NaN c m i a) = NaN"
  by (simp add: ssStep_def Let_def)

lemma fold_ssStep_NaN:
  "0 < k \<Longrightarrow> snd (fold (ssStep xs ys NaN c m) [0..<k] a) = NaN"
  by (cases k) (simp_all add: ssStep_NaN)

text \<open>
  On small integer samples the numerator and the denominator of the slope are computed
  without a rounding error.
\<close>

lemma slope_quotient_exact:
  assumes len: "length ys = length xs" and n: "length xs \<le> 1000"
    and xs: "small_ints xs" and ys: "small_ints ys"
  defines "n \<equiv> length xs"
  defines "Sx \<equiv> (\<Sum>i<n. xs ! i)" and "Sy \<equiv> (\<Sum>i<n. ys ! i)"
    and "Sxy \<equiv> (\<Sum>i<n. xs ! i * ys ! i)" and "Sxx \<equiv> (\<Sum>i<n. xs ! i * xs ! i)"
  shows "fsub (fmul (Num (real n)) (Num Sxy)) (fmul (Num Sx) (Num Sy))
           = Num (real n * Sxy - Sx * Sy)"
    and "fsub (fmul (Num (real n)) (Num Sxx)) (fmul (Num Sx) (Num Sx))
           = Num (real n * Sxx - Sx * Sx)"
    and "Sx \<in> \<int>" "\<bar>Sx\<bar> \<le> 3002000" "Sy \<in> \<int>" "\<bar>Sy\<bar> \<le> 3002000"
proof -
  have el: "xs ! i \<in> \<int> \<and> \<bar>xs ! i\<bar> \<le> 3002" "ys ! i \<in> \<int> \<and> \<bar>ys ! i\<bar> \<le> 3002"
    if "i < n" for i
    using that small_ints_nth [OF xs, of i] small_ints_nth [OF ys, of i] len
    by (simp_all add: n_def)
  have pr: "a * b \<in> \<int> \<and> \<bar>a * b\<bar> \<le> 9012004"
    if "a \<in> \<int> \<and> \<bar>a\<bar> \<le> 3002" "b \<in> \<int> \<and> \<bar>b\<bar> \<le> 3002" for a b :: real
    using that abs_mult_bound [of a 3002 b 3002] by simp
  have n1000: "real n \<le> 1000" "0 \<le> real n" "\<bar>real n\<bar> \<le> 1000"
    using n by (simp_all add: n_def)
  have sums: "(\<Sum>i<n. f i) \<in> \<int>" "\<bar>\<Sum>i<n. f i\<bar> \<le> 1000 * C"
    if "\<forall>i<n. f i \<in> \<int> \<and> \<bar>f i\<bar> \<le> C" "0 \<le> C" for f :: "nat \<Rightarrow> real" and C
  proof -
    show "(\<Sum>i<n. f i) \<in> \<int>"
      using that(1) by (intro Ints_sum) simp
    have "\<bar>\<Sum>i<n. f i\<bar> \<le> real n * C"
      using that(1) by (intro sum_abs_bound) simp
    also have "\<dots> \<le> 1000 * C"
      using n1000 that(2) by (intro mult_right_mono) simp_all
    finally show "\<bar>\<Sum>i<n. f i\<bar> \<le> 1000 * C" .
  qed
  have x: "\<forall>i<n. xs ! i \<in> \<int> \<and> \<bar>xs ! i\<bar> \<le> 3002"
    and y: "\<forall>i<n. ys ! i \<in> \<int> \<and> \<bar>ys ! i\<bar> \<le> 3002"
    and xy: "\<forall>i<n. xs ! i * ys ! i \<in> \<int> \<and> \<bar>xs ! i * ys ! i\<bar> \<le> 9012004"
    and xx: "\<forall>i<n. xs ! i * xs ! i \<in> \<int> \<and> \<bar>xs ! i * xs ! i\<bar> \<le> 9012004"
    using el pr by blast+
  have Sx: "Sx \<in> \<int>" "\<bar>Sx\<bar> \<le> 3002000"
    unfolding Sx_def using sums [OF x] by simp_all
  have Sy: "Sy \<in> \<int>" "\<bar>Sy\<bar> \<le> 3002000"
    unfolding Sy_def using sums [OF y] by simp_all
  have Sxy: "Sxy \<in> \<int>" "\<bar>Sxy\<bar> \<le> 9012004000"
    unfolding Sxy_def using sums [OF xy] by simp_all
  have Sxx: "Sxx \<in> \<int>" "\<bar>Sxx\<bar> \<le> 9012004000"
    unfolding Sxx_def using sums [OF xx] by simp_all
  have b1: "\<bar>real n * Sxy\<bar> \<le> 1000 * 9012004000" "\<bar>real n * Sxx\<bar> \<le> 1000 * 9012004000"
    by (rule abs_mult_bound [OF n1000(3) Sxy(2)], rule abs_mult_bound [OF n1000(3) Sxx(2)])
  have b2: "\<bar>Sx * Sy\<bar> \<le> 3002000 * 3002000" "\<bar>Sx * Sx\<bar> \<le> 3002000 * 3002000"
    by (rule abs_mult_bound [OF Sx(2) Sy(2)], rule abs_mult_bound [OF Sx(2) Sx(2)])
  have b3: "\<bar>real n * Sxy\<bar> \<le> 2 ^ 53" "\<bar>real n * Sxx\<bar> \<le> 2 ^ 53"
    "\<bar>Sx * Sy\<bar> \<le> 2 ^ 53" "\<bar>Sx * Sx\<bar> \<le> 2 ^ 53"
    by (rule order_trans [OF b1(1)], simp, rule order_trans [OF b1(2)], simp,
        rule order_trans [OF b2(1)], simp, rule order_trans [OF b2(2)], simp)
  have m1: "fmul (Num (real n)) (Num Sxy) = Num (real n * Sxy)"
    "fmul (Num (real n)) (Num Sxx) = Num (real n * Sxx)"
    using b3(1,2) Sxy(1) Sxx(1) by (simp_all add: fmul_exact)
  have m2: "fmul (Num Sx) (Num Sy) = Num (Sx * Sy)" "fmul (Num Sx) (Num Sx) = Num (Sx * Sx)"
    using b3(3,4) Sx(1) Sy(1) by (simp_all add: fmul_exact)
  have tri: "\<bar>a - b\<bar> \<le> 2 ^ 53"
    if "\<bar>a\<bar> \<le> 1000 * 9012004000" "\<bar>b\<bar> \<le> 3002000 * 3002000" for a b :: real
    using that by (simp add: abs_if split: if_splits)
  have d1: "\<bar>real n * Sxy - Sx * Sy\<bar> \<le> 2 ^ 53" "\<bar>real n * Sxx - Sx * Sx\<bar> \<le> 2 ^ 53"
    by (rule tri [OF b1(1) b2(1)], rule tri [OF b1(2) b2(2)])
  show "fsub (fmul (Num (real n)) (Num Sxy)) (fmul (Num Sx) (Num Sy))
           = Num (real n * Sxy - Sx * Sy)"
    unfolding m1 m2 using d1(1) Sx(1) Sy(1) Sxy(1) by (simp add: fsub_exact)
  show "fsub (fmul (Num (real n)) (Num Sxx)) (fmul (Num Sx) (Num Sx))
           = Num (real n * Sxx - Sx * Sx)"
    unfolding m1 m2 using d1(2) Sx(1) Sxx(1) by (simp add: fsub_exact)
  show "Sx \<in> \<int>" "\<bar>Sx\<bar> \<le> 3002000" "Sy \<in> \<int>" "\<bar>Sy\<bar> \<le> 3002000"
    by (fact Sx Sy)+
qed

lemma regressionFit_constant_x:
  assumes len: "length ys = length xs" and n: "1 \<le> length xs" "length xs \<le> 1000"
    and xs: "small_ints xs" and ys: "small_ints ys"
    and const: "\<forall>i<length xs. xs ! i = c"
  shows "regressionFit xs ys = \<lparr>slope = NaN, intercept = NaN, r2 = NaN\<rparr>"
proof -
  let ?n = "length xs"
  let ?a = "fold (sumStep xs ys) [0..<?n]
      \<lparr>sumX = Num 0, sumY = Num 0, sumXY = Num 0, sumX2 = Num 0, sumY2 = Num 0\<rparr>"
  have a: "?a = \<lparr>sumX = Num (\<Sum>i<?n. xs ! i), sumY = Num (\<Sum>i<?n. ys ! i),
       sumXY = Num (\<Sum>i<?n. xs ! i * ys ! i), sumX2 = Num (\<Sum>i<?n. xs ! i * xs ! i),
       sumY2 = Num (\<Sum>i<?n. ys ! i * ys ! i)\<rparr>"
    using fold_sumStep [OF len n(2) xs ys, of ?n] by simp
  have sx: "(\<Sum>i<?n. xs ! i) = real ?n * c"
    using const by simp
  have sxx: "(\<Sum>i<?n. xs ! i * xs ! i) = real ?n * (c * c)"
    using const by simp
  have sxy: "(\<Sum>i<?n. xs ! i * ys ! i) = c * (\<Sum>i<?n. ys ! i)"
    using const by (simp add: sum_distrib_left)
  note q = slope_quotient_exact(1,2) [OF len n(2) xs ys]
  have num: "real ?n * (\<Sum>i<?n. xs ! i * ys ! i) - (\<Sum>i<?n. xs ! i) * (\<Sum>i<?n. ys ! i) = 0"
    unfolding sx sxy by simp
  have den: "real ?n * (\<Sum>i<?n. xs ! i * xs ! i) - (\<Sum>i<?n. xs ! i) * (\<Sum>i<?n. xs ! i) = 0"
    unfolding sx sxx by simp
  have sl: "fdiv (fsub (fmul (Num (real ?n)) (sumXY ?a)) (fmul (sumX ?a) (sumY ?a)))
                    (fsub (fmul (Num (real ?n)) (sumX2 ?a)) (fmul (sumX ?a) (sumX ?a))) = NaN"
    unfolding a by (simp add: q num den fdiv_def jsinf_def)
  have "0 < ?n" using n(1) by linarith
  then have "snd (fold (ssStep xs ys NaN c' m) [0..<?n] z) = NaN" for c' m z
    by (rule fold_ssStep_NaN)
  then show ?thesis
    unfolding regressionFit_def Let_def sl
    by simp
qed

text \<open>
  Claim C3, as stated: on samples that share one \<open>x\<close> value the function fails with an
  error instead of returning a result whose slope is NaN. It does not: on the two samples
  \<open>(1, 2)\<close> and \<open>(1, 3)\<close> it returns a result, and the slope of that result is NaN.
\<close>

theorem constant_x_returns_nan_example:
  "linearRegression_pendulum [1, 1] [2, 3] = Some \<lparr>slope = NaN, intercept = NaN, r2 = NaN\<rparr>"
  using regressionFit_constant_x [of "[2, 3]" "[1, 1]" 1]
  by (simp add: linearRegression_pendulum_def small_ints_def nth_Cons split: nat.splits)

text \<open>
  Claim C3, amended: for every pair of lists of equal length \<open>n \<ge> 2\<close> in which all \<open>x\<close>
  values are equal, \<open>linearRegression\<close> signals no error: it returns a result. When the
  samples are integers of magnitude up to 1000, at most 1000 of them, the sums carry no
  rounding error, numerator and denominator of the slope are both zero, and the slope, the
  intercept and \<open>R\<^sup>2\<close> of the result are NaN.
\<close>

theorem constant_x_returns_result:
  assumes "length ys = length xs" and "2 \<le> length xs" and "\<forall>i<length xs. xs ! i = c"
  shows "linearRegression_pendulum xs ys = Some (regressionFit xs ys)
         \<and> linearRegression_centripetal xs ys = regressionFit xs ys
         \<and> (length xs \<le> 1000 \<and> (\<forall>v\<in>set xs \<union> set ys. v \<in> \<int> \<and> \<bar>v\<bar> \<le> 1000)
              \<longrightarrow> regressionFit xs ys = \<lparr>slope = NaN, intercept = NaN, r2 = NaN\<rparr>)"
proof -
  have "regressionFit xs ys = \<lparr>slope = NaN, intercept = NaN, r2 = NaN\<rparr>"
    if "length xs \<le> 1000" "\<forall>v\<in>set xs \<union> set ys. v \<in> \<int> \<and> \<bar>v\<bar> \<le> 1000"
  proof -
    have "v \<in> \<int> \<and> \<bar>v\<bar> \<le> 3002" if "v \<in> set xs \<union> set ys" for v
    proof -
      from \<open>\<forall>v\<in>set xs \<union> set ys. v \<in> \<int> \<and> \<bar>v\<bar> \<le> 1000\<close> that have "v \<in> \<int>" "\<bar>v\<bar> \<le> 1000"
        by blast+
      then show ?thesis by simp
    qed
    then have "small_ints xs" "small_ints ys"
      by (simp_all add: small_ints_def)
    with assms that(1) show ?thesis
      by (intro regressionFit_constant_x [where c = c]) simp_all
  qed
  with assms(2) show ?thesis
    by (simp add: linearRegression_pendulum_def linearRegression_centripetal_def)
qed

text \<open>Three samples at \<open>x = 7\<close>.\<close>

theorem constant_x_returns_result_witness:
  "length [2, 3, 5 :: real] = length [7, 7, 7 :: real] \<and> 2 \<le> length [7, 7, 7 :: real]
   \<and> linearRegression_pendulum [7, 7, 7] [2, 3, 5]
       = Some \<lparr>slope = NaN, intercept = NaN, r2 = NaN\<rparr>
   \<and> linearRegression_centripetal [7, 7, 7] [2, 3, 5]
       = \<lparr>slope = NaN, intercept = NaN, r2 = NaN\<rparr>"
proof -
  have "\<forall>i<length [7, 7, 7 :: real]. [7, 7, 7 :: real] ! i = 7"
    by (simp add: nth_Cons split: nat.splits)
  from constant_x_returns_result [OF _ _ this, of "[2, 3, 5]"]
  show ?thesis by simp
qed

text \<open>
  Samples that share an \<open>x\<close> value that is not an integer: for \<open>x = 0.3\<close> (the
  double-precision number nearest to it) and \<open>y = 1, 2, 4\<close> the rounded denominator of the
  slope is \<open>2 powi (- 52)\<close>, not zero, and the slope returned is the finite number 0.
\<close>

lemmas round64_binades =
  round64_eval [where e = "- 52"] round64_eval [where e = "- 4"] round64_eval [where e = "- 3"]
  round64_eval [where e = "- 2"] round64_eval [where e = "- 1"] round64_eval [where e = 0]
  round64_eval [where e = 1] round64_eval [where e = 2]

lemma constant_x_finite_slope_example:
  "slope (regressionFit [round64 0.3, round64 0.3, round64 0.3] [1, 2, 4]) = Num 0"
proof -
  have x: "round64 0.3 = 5404319552844595 / 2 ^ 54"
    by (simp add: round64_eval [where e = "- 2"] round_ties_even_def Let_def)
  let ?xs = "[5404319552844595 / 2 ^ 54, 5404319552844595 / 2 ^ 54, 5404319552844595 / 2 ^ 54 :: real]"
  let ?ys = "[1, 2, 4 :: real]"
  let ?acc = "fold (sumStep ?xs ?ys) [0..<length ?xs]
      \<lparr>sumX = Num 0, sumY = Num 0, sumXY = Num 0, sumX2 = Num 0, sumY2 = Num 0\<rparr>"
  have u: "[0..<length ?xs] = [0, 1, 2]"
    by (simp add: upt_rec)
  have acc: "sumX ?acc = Num (2026619832316723 / 2 ^ 51)" "sumY ?acc = Num 7"
    "sumXY ?acc = Num (1182194902184755 / 2 ^ 49)" "sumX2 ?acc = Num (607985949695017 / 2 ^ 51)"
    unfolding u
    by (simp_all add: sumStep_def jsidx_def fadd_def fmul_def fl64_def round64_binades
        round_ties_even_def Let_def)
  have len3: "real (length ?xs) = 3"
    by simp
  have r1: "fmul (Num 3) (Num (1182194902184755 / 2 ^ 49)) = Num (3546584706554265 / 2 ^ 49)"
    by (simp add: fmul_def fl64_def round64_binades round_ties_even_def Let_def)
  have r2: "fmul (Num (2026619832316723 / 2 ^ 51)) (Num 7) = Num (3546584706554265 / 2 ^ 49)"
    by (simp add: fmul_def fl64_def round64_binades round_ties_even_def Let_def)
  have r3: "fsub (Num (3546584706554265 / 2 ^ 49)) (Num (3546584706554265 / 2 ^ 49)) = Num 0"
    by (simp add: fsub_def fl64_def)
  have r4: "fmul (Num 3) (Num (607985949695017 / 2 ^ 51)) = Num (1823957849085051 / 2 ^ 51)"
    by (simp add: fmul_def fl64_def round64_binades round_ties_even_def Let_def)
  have r5: "fmul (Num (2026619832316723 / 2 ^ 51)) (Num (2026619832316723 / 2 ^ 51))
            = Num (3647915698170101 / 2 ^ 52)"
    by (simp add: fmul_def fl64_def round64_binades round_ties_even_def Let_def)
  have r6: "fsub (Num (1823957849085051 / 2 ^ 51)) (Num (3647915698170101 / 2 ^ 52))
            = Num (1 / 2 ^ 52)"
    by (simp add: fsub_def fl64_def round64_binades round_ties_even_def Let_def)
  have r7: "fdiv (Num 0) (Num (1 / 2 ^ 52)) = Num 0"
    by (simp add: fdiv_def fl64_def)
  show ?thesis
    unfolding x regressionFit_def Let_def acc
    unfolding len3
    unfolding r1 r2 r3 r4 r5 r6 r7 by simp
qed

lemma sq_dev_pos:
  fixes f :: "nat \<Rightarrow> real"
  assumes "i < n" "j < n" "f i \<noteq> f j"
  shows "0 < (\<Sum>k<n. (f k - c) * (f k - c))"
proof -
  from assms obtain l where l: "l < n" "f l \<noteq> c"
    by (cases "f i = c") auto
  then have "f l - c \<noteq> 0"
    by simp
  then have "0 < (f l - c)\<^sup>2"
    by simp
  then have "0 < (f l - c) * (f l - c)"
    by (simp only: power2_eq_square)
  moreover have "\<forall>k\<in>{..<n}. 0 \<le> (f k - c) * (f k - c)"
    by simp
  ultimately show ?thesis
    using l(1) by (intro sum_pos2 [where i = l]) simp_all
qed

lemma sq_dev_expand:
  fixes f :: "nat \<Rightarrow> real"
  shows "(\<Sum>k<n. (f k - c) * (f k - c))
         = (\<Sum>k<n. f k * f k) - 2 * c * (\<Sum>k<n. f k) + real n * (c * c)"
proof -
  have "(\<Sum>k<n. (f k - c) * (f k - c)) = (\<Sum>k<n. f k * f k - 2 * c * f k + c * c)"
    by (rule sum.cong) (simp_all add: algebra_simps)
  also have "\<dots> = (\<Sum>k<n. f k * f k) - (\<Sum>k<n. 2 * c * f k) + (\<Sum>k<n. c * c)"
    by (simp add: sum.distrib sum_subtractf)
  also have "\<dots> = (\<Sum>k<n. f k * f k) - 2 * c * (\<Sum>k<n. f k) + real n * (c * c)"
    by (simp add: sum_distrib_left)
  finally show ?thesis .
qed

lemma denominator_pos:
  fixes f :: "nat \<Rightarrow> real"
  assumes "i < n" "j < n" "f i \<noteq> f j"
  shows "0 < real n * (\<Sum>k<n. f k * f k) - (\<Sum>k<n. f k) * (\<Sum>k<n. f k)"
proof -
  define S where "S = (\<Sum>k<n. f k)"
  have n: "0 < real n" using assms(1) by simp
  have "0 < real n * (\<Sum>k<n. (f k - S / real n) * (f k - S / real n))"
    using sq_dev_pos [OF assms] n by simp
  also have "\<dots> = real n * (\<Sum>k<n. f k * f k) - S * S"
    unfolding sq_dev_expand S_def [symmetric] using n
    by (simp add: field_simps)
  finally show ?thesis
    unfolding S_def .
qed

text \<open>Rounding does not cross a power of two, nor zero.\<close>

lemma round64_ge_half: "1 / 2 \<le> x \<Longrightarrow> 1 / 2 \<le> round64 x"
  using round64_ge_pow2 [of "- 1" x] by simp

lemma round64_le_neg_half: "x \<le> - (1 / 2) \<Longrightarrow> round64 x \<le> - (1 / 2)"
  using round64_le_neg_pow2 [of x "- 1"] by simp

lemma round64_ge_quarter: "1 / 4 \<le> x \<Longrightarrow> 1 / 4 \<le> round64 x"
  using round64_ge_pow2 [of "- 2" x] by simp

text \<open>
  One pass of the second loop on a sample of the line \<open>y = 3x + 2\<close>, the fit being the line:
  the residual sum stays zero, and the total sum stays a finite number, which is at least
  \<open>1/4\<close> once a sample has been half a unit away from \<open>yMean\<close>.
\<close>

lemma ssStep_line:
  assumes i: "i < length xs" "i < length ys"
    and x: "xs ! i \<in> \<int>" "\<bar>xs ! i\<bar> \<le> 1000" and y: "ys ! i = 3 * xs ! i + 2"
    and m: "\<bar>m\<bar> \<le> 3002" and t: "0 \<le> t" "t \<le> real k * 36048016" and k: "k < 1000"
  shows "\<exists>t'. ssStep xs ys (Num 3) (Num 2) (Num m) i (Num t, Num 0) = (Num t', Num 0)
           \<and> 0 \<le> t' \<and> t' \<le> real (Suc k) * 36048016
           \<and> (1 / 4 \<le> t \<or> 1 / 2 \<le> \<bar>ys ! i - m\<bar> \<longrightarrow> 1 / 4 \<le> t')"
proof -
  define d where "d = round64 (ys ! i - m)"
  define e where "e = round64 (d * d)"
  define t' where "t' = round64 (t + e)"
  have yb: "\<bar>ys ! i\<bar> \<le> 3002" "ys ! i \<in> \<int>"
    using x by (simp_all add: y abs_if split: if_splits)
  have ym: "\<bar>ys ! i - m\<bar> \<le> of_int 6004"
    using yb(1) m by (simp add: abs_if split: if_splits)
  have fd: "fsub (Num (ys ! i)) (Num m) = Num d"
    using fl64_finite [OF ym] by (simp add: fsub_def d_def)
  have d: "\<bar>d\<bar> \<le> 6004"
    using round64_abs_le_int [OF ym] by (simp add: d_def)
  have dd0: "0 \<le> d * d"
    by simp
  have "\<bar>d * d\<bar> \<le> 6004 * 6004"
    by (rule abs_mult_bound [OF d d])
  then have dd: "\<bar>d * d\<bar> \<le> of_int 36048016"
    by simp
  have fe: "fmul (Num d) (Num d) = Num e"
    using fl64_finite [OF dd] by (simp add: fmul_def e_def)
  have e: "0 \<le> e" "e \<le> 36048016"
    using round64_nonneg [OF dd0] round64_abs_le_int [OF dd] by (simp_all add: e_def)
  have te0: "0 \<le> t + e"
    using t(1) e(1) by simp
  have "t + e \<le> real k * 36048016 + 36048016"
    using t(2) e(2) by simp
  also have "\<dots> = of_int (int (Suc k) * 36048016)"
    by (simp add: algebra_simps)
  finally have te: "\<bar>t + e\<bar> \<le> of_int (int (Suc k) * 36048016)"
    using te0 by simp
  have K: "int (Suc k) * 36048016 \<le> 2 ^ 53"
    using k by simp
  have ft: "fadd (Num t) (Num e) = Num t'"
    using fl64_finite [OF te K] by (simp add: fadd_def t'_def)
  have t': "0 \<le> t'" "t' \<le> real (Suc k) * 36048016"
    using round64_nonneg [OF te0] round64_abs_le_int [OF te K] by (simp_all add: t'_def)
  have low: "1 / 4 \<le> t'" if "1 / 4 \<le> t \<or> 1 / 2 \<le> \<bar>ys ! i - m\<bar>"
  proof -
    have "1 / 4 \<le> t + e"
      using that
    proof
      assume "1 / 4 \<le> t"
      with e(1) show ?thesis by simp
    next
      assume "1 / 2 \<le> \<bar>ys ! i - m\<bar>"
      then have "1 / 2 \<le> ys ! i - m \<or> ys ! i - m \<le> - (1 / 2)"
        by linarith
      then have "1 / 2 \<le> d \<or> d \<le> - (1 / 2)"
        unfolding d_def using round64_ge_half round64_le_neg_half by blast
      then have "1 / 2 \<le> \<bar>d\<bar>"
        by linarith
      then have "(1 / 2) * (1 / 2) \<le> \<bar>d\<bar> * \<bar>d\<bar>"
        by (intro mult_mono) simp_all
      then have "1 / 4 \<le> d * d"
        by simp
      then have "1 / 4 \<le> e"
        unfolding e_def by (rule round64_ge_quarter)
      with t(1) show ?thesis by simp
    qed
    then show ?thesis
      unfolding t'_def by (rule round64_ge_quarter)
  qed
  have p1: "fmul (Num 3) (Num (xs ! i)) = Num (3 * xs ! i)"
    using x by (intro fmul_exact) (simp_all add: abs_if split: if_splits)
  have p2: "fadd (Num (3 * xs ! i)) (Num 2) = Num (ys ! i)"
    using yb fadd_exact [of "3 * xs ! i" 2] by (simp add: y)
  have p3: "fsub (Num (ys ! i)) (Num (ys ! i)) = Num 0"
    using fsub_exact [of "ys ! i" "ys ! i"] by simp
  have p4: "fmul (Num 0) (Num 0) = Num 0" "fadd (Num 0) (Num 0) = Num 0"
    using fmul_exact [of 0 0] fadd_exact [of 0 0] by simp_all
  have "ssStep xs ys (Num 3) (Num 2) (Num m) i (Num t, Num 0) = (Num t', Num 0)"
    using i by (simp add: ssStep_def Let_def jsidx_Num fd fe ft p1 p2 p3 p4)
  with t' low show ?thesis
    by blast
qed

lemma fold_ssStep_line:
  assumes len: "length ys = length xs" and n: "length xs \<le> 1000"
    and x: "\<forall>i<length xs. xs ! i \<in> \<int> \<and> \<bar>xs ! i\<bar> \<le> 1000"
    and y: "\<forall>i<length xs. ys ! i = 3 * xs ! i + 2"
    and m: "\<bar>m\<bar> \<le> 3002"
  shows "k \<le> length xs \<Longrightarrow>
    \<exists>t. fold (ssStep xs ys (Num 3) (Num 2) (Num m)) [0..<k] (Num 0, Num 0) = (Num t, Num 0)
       \<and> 0 \<le> t \<and> t \<le> real k * 36048016
       \<and> ((\<exists>i<k. 1 / 2 \<le> \<bar>ys ! i - m\<bar>) \<longrightarrow> 1 / 4 \<le> t)"
proof (induction k)
  case 0
  show ?case by simp
next
  case (Suc k)
  then have k: "k < length xs" "k < length ys" "k \<le> length xs" "k < 1000"
    using len n by simp_all
  from Suc.IH [OF k(3)] obtain t
    where t: "fold (ssStep xs ys (Num 3) (Num 2) (Num m)) [0..<k] (Num 0, Num 0) = (Num t, Num 0)"
      "0 \<le> t" "t \<le> real k * 36048016" "(\<exists>i<k. 1 / 2 \<le> \<bar>ys ! i - m\<bar>) \<longrightarrow> 1 / 4 \<le> t"
    by blast
  from x y k(1) have xk: "xs ! k \<in> \<int>" "\<bar>xs ! k\<bar> \<le> 1000" "ys ! k = 3 * xs ! k + 2"
    by simp_all
  from ssStep_line [OF k(1,2) xk m t(2,3) k(4)] obtain t'
    where t': "ssStep xs ys (Num 3) (Num 2) (Num m) k (Num t, Num 0) = (Num t', Num 0)"
      "0 \<le> t'" "t' \<le> real (Suc k) * 36048016"
      "1 / 4 \<le> t \<or> 1 / 2 \<le> \<bar>ys ! k - m\<bar> \<longrightarrow> 1 / 4 \<le> t'"
    by blast
  have "(\<exists>i<Suc k. 1 / 2 \<le> \<bar>ys ! i - m\<bar>) \<longrightarrow> 1 / 4 \<le> t'"
    using t(4) t'(4) by (auto simp: less_Suc_eq)
  moreover have "fold (ssStep xs ys (Num 3) (Num 2) (Num m)) [0..<Suc k] (Num 0, Num 0)
                 = (Num t', Num 0)"
    by (simp add: t(1) t'(1))
  ultimately show ?case
    using t'(2,3) by blast
qed

lemma regressionFit_line:
  assumes ys: "ys = map (\<lambda>x. 3 * x + 2) xs"
    and n: "length xs \<le> 1000"
    and xb: "\<forall>x\<in>set xs. x \<in> \<int> \<and> \<bar>x\<bar> \<le> 1000"
    and ij: "i < length xs" "j < length xs" "xs ! i \<noteq> xs ! j"
  shows "regressionFit xs ys = \<lparr>slope = Num 3, intercept = Num 2, r2 = Num 1\<rparr>"
proof -
  define n where "n = length xs"
  define Sx where "Sx = (\<Sum>k<n. xs ! k)"
  define Sxx where "Sxx = (\<Sum>k<n. xs ! k * xs ! k)"
  define Sy where "Sy = (\<Sum>k<n. ys ! k)"
  define Sxy where "Sxy = (\<Sum>k<n. xs ! k * ys ! k)"
  define D where "D = real n * Sxx - Sx * Sx"
  define m where "m = round64 (Sy / real n)"
  have len: "length ys = length xs" by (simp add: ys)
  have x: "xs ! k \<in> \<int> \<and> \<bar>xs ! k\<bar> \<le> 1000" if "k < n" for k
    using that xb by (simp add: n_def)
  have y: "ys ! k = 3 * xs ! k + 2" if "k < n" for k
    using that by (simp add: ys n_def)
  have yb: "\<bar>ys ! k\<bar> \<le> 3002" if "k < n" for k
    using x [OF that] y [OF that] by (simp add: abs_if split: if_splits)
  have sx: "small_ints xs"
    using xb by (auto simp: small_ints_def intro: order_trans)
  have sy: "small_ints ys"
  proof -
    have "3 * v + 2 \<in> \<int> \<and> \<bar>3 * v + 2\<bar> \<le> 3002" if "v \<in> set xs" for v
    proof -
      from xb that have "v \<in> \<int>" "\<bar>v\<bar> \<le> 1000" by blast+
      then show ?thesis by (simp add: abs_if split: if_splits)
    qed
    then show ?thesis
      by (simp add: small_ints_def ys)
  qed
  have n0: "0 < real n" using ij(1) unfolding n_def by (cases xs) simp_all
  have Sy: "Sy = 3 * Sx + 2 * real n"
  proof -
    have "(\<Sum>k<n. ys ! k) = (\<Sum>k<n. 3 * xs ! k + 2)"
      by (rule sum.cong) (simp_all add: y)
    then show ?thesis
      by (simp add: sum.distrib sum_distrib_left Sx_def Sy_def)
  qed
  have Sxy: "Sxy = 3 * Sxx + 2 * Sx"
  proof -
    have "(\<Sum>k<n. xs ! k * ys ! k) = (\<Sum>k<n. 3 * (xs ! k * xs ! k) + 2 * xs ! k)"
      by (rule sum.cong) (simp_all add: y algebra_simps)
    then show ?thesis
      by (simp add: sum.distrib sum_distrib_left Sx_def Sxx_def Sxy_def)
  qed
  have D: "0 < D"
    unfolding D_def Sxx_def Sx_def
    using denominator_pos [of i n j "\<lambda>k. xs ! k"] ij by (simp add: n_def)
  let ?acc = "fold (sumStep xs ys) [0..<n]
      \<lparr>sumX = Num 0, sumY = Num 0, sumXY = Num 0, sumX2 = Num 0, sumY2 = Num 0\<rparr>"
  have acc: "?acc = \<lparr>sumX = Num Sx, sumY = Num Sy, sumXY = Num Sxy, sumX2 = Num Sxx,
       sumY2 = Num (\<Sum>i<n. ys ! i * ys ! i)\<rparr>"
    using fold_sumStep [OF len n sx sy, of "length xs"]
    by (simp add: n_def Sx_def Sy_def Sxy_def Sxx_def)
  note q = slope_quotient_exact [OF len n sx sy, folded n_def, folded Sx_def Sy_def Sxy_def Sxx_def]
  have num: "real n * Sxy - Sx * Sy = 3 * D"
    by (simp add: Sxy Sy D_def algebra_simps)
  have three: "fl64 3 = Num 3" "fl64 2 = Num 2" "fl64 1 = Num 1" "fl64 0 = Num 0"
    by (simp_all add: fl64_Ints)
  have sl: "fdiv (fsub (fmul (Num (real n)) (sumXY ?acc)) (fmul (sumX ?acc) (sumY ?acc)))
              (fsub (fmul (Num (real n)) (sumX2 ?acc)) (fmul (sumX ?acc) (sumX ?acc)))
            = Num 3"
    unfolding acc using D
    by (simp add: q(1,2) num D_def [symmetric] fdiv_def three)
  have "\<bar>3 * Sx\<bar> \<le> 2 ^ 53"
    using q(4) by (simp add: abs_if split: if_splits)
  then have p1: "fmul (Num 3) (Num Sx) = Num (3 * Sx)"
    using q(3) by (intro fmul_exact) simp_all
  have "\<bar>Sy - 3 * Sx\<bar> \<le> 2 ^ 53"
    using n unfolding Sy n_def [symmetric] by simp
  then have p2: "fsub (Num Sy) (Num (3 * Sx)) = Num (2 * real n)"
    using fsub_exact [of Sy "3 * Sx"] by (simp add: Sy)
  have ic: "fdiv (fsub (sumY ?acc) (fmul (Num 3) (sumX ?acc))) (Num (real n)) = Num 2"
    unfolding acc using n0
    by (simp add: p1 p2 fdiv_def three)
  have "\<bar>Sy\<bar> \<le> real n * 3002"
    unfolding Sy_def using yb by (intro sum_abs_bound) simp
  then have "\<bar>Sy / real n\<bar> \<le> 3002"
    using n0 by (simp add: field_simps)
  then have mb: "\<bar>Sy / real n\<bar> \<le> of_int 3002"
    by simp
  have ym: "fdiv (sumY ?acc) (Num (real n)) = Num m"
    unfolding acc using n0 fl64_finite [OF mb]
    by (simp add: fdiv_def m_def)
  have m: "\<bar>m\<bar> \<le> 3002"
    using round64_abs_le_int [OF mb] by (simp add: m_def)
  have far: "\<exists>l<n. 1 / 2 \<le> \<bar>ys ! l - m\<bar>"
  proof -
    have i: "i < n" and j: "j < n"
      using ij by (simp_all add: n_def)
    from x [OF i] x [OF j] have "xs ! i - xs ! j \<in> \<int>"
      by simp
    then obtain z :: int where z: "xs ! i - xs ! j = of_int z"
      by (auto elim: Ints_cases)
    with ij(3) have "z \<noteq> 0"
      by auto
    then have "1 \<le> \<bar>z\<bar>"
      by simp
    then have "1 \<le> \<bar>of_int z :: real\<bar>"
      by (metis of_int_abs of_int_1_le_iff)
    then have "1 \<le> \<bar>xs ! i - xs ! j\<bar>"
      by (simp add: z)
    then have "3 \<le> \<bar>ys ! i - ys ! j\<bar>"
      by (simp add: y [OF i] y [OF j] abs_if split: if_splits)
    then have "1 / 2 \<le> \<bar>ys ! i - m\<bar> \<or> 1 / 2 \<le> \<bar>ys ! j - m\<bar>"
      by linarith
    with i j show ?thesis
      by blast
  qed
  from fold_ssStep_line [OF len n _ _ m, of "length xs"] x y
  obtain t where t: "fold (ssStep xs ys (Num 3) (Num 2) (Num m)) [0..<n] (Num 0, Num 0)
                      = (Num t, Num 0)"
    "(\<exists>l<n. 1 / 2 \<le> \<bar>ys ! l - m\<bar>) \<longrightarrow> 1 / 4 \<le> t"
    unfolding n_def by auto
  from t(2) far have t0: "t \<noteq> 0"
    by auto
  show ?thesis
    unfolding regressionFit_def Let_def n_def [symmetric]
    unfolding sl ic ym t(1) using t0
    by (simp add: fdiv_def fsub_def three)
qed

text \<open>
  Claim C7, as stated: on all samples of the line \<open>y = 3x + 2\<close> the slope that
  \<open>linearRegression\<close> returns is near 3. For \<open>x = 30000000, 30000001, 30000002\<close> the two
  products in the numerator of the slope are above \<open>2 ^ 54\<close>, where double-precision numbers
  are four apart; their rounded difference is 20, not 18, and the slope returned is
  \<open>20 / 6\<close> (rounded), the intercept \<open>-29999995 / 3\<close> (rounded).
\<close>

theorem regression_off_line_example:
  "linearRegression_pendulum [30000000, 30000001, 30000002] [90000002, 90000005, 90000008]
     = Some (regressionFit [30000000, 30000001, 30000002] [90000002, 90000005, 90000008])
   \<and> slope (regressionFit [30000000, 30000001, 30000002] [90000002, 90000005, 90000008])
     = Num (7505999378950827 / 2 ^ 51)
   \<and> intercept (regressionFit [30000000, 30000001, 30000002] [90000002, 90000005, 90000008])
     = Num (- 5368708225215147 / 2 ^ 29)
   \<and> \<not> jsnear (slope (regressionFit [30000000, 30000001, 30000002]
                  [90000002, 90000005, 90000008])) 3 0.3"
proof -
  let ?xs = "[30000000, 30000001, 30000002 :: real]"
  let ?ys = "[90000002, 90000005, 90000008 :: real]"
  let ?acc = "fold (sumStep ?xs ?ys) [0..<length ?xs]
      \<lparr>sumX = Num 0, sumY = Num 0, sumXY = Num 0, sumX2 = Num 0, sumY2 = Num 0\<rparr>"
  have u: "[0..<length ?xs] = [0, 1, 2]"
    by (simp add: upt_rec)
  have acc: "sumX ?acc = Num 90000003" "sumY ?acc = Num 270000015"
    "sumXY ?acc = Num 8100000720000021" "sumX2 ?acc = Num 2700000180000005"
    unfolding u by (simp_all add: sumStep_def jsidx_def fadd_def fmul_def fl64_Ints)
  have len3: "real (length ?xs) = 3"
    by simp
  have r1: "fmul (Num 3) (Num 8100000720000021) = Num 24300002160000064"
    by (simp add: fmul_def fl64_def round64_eval [where e = 54] round_ties_even_def Let_def)
  have r2: "fmul (Num 90000003) (Num 270000015) = Num 24300002160000044"
    by (simp add: fmul_def fl64_def round64_eval [where e = 54] round_ties_even_def Let_def)
  have r3: "fsub (Num 24300002160000064) (Num 24300002160000044) = Num 20"
    by (simp add: fsub_def fl64_Ints)
  have r4: "fsub (fmul (Num 3) (Num 2700000180000005)) (fmul (Num 90000003) (Num 90000003)) = Num 6"
    by (simp add: fsub_def fmul_def fl64_Ints)
  have r5: "fdiv (Num 20) (Num 6) = Num (7505999378950827 / 2 ^ 51)"
    by (simp add: fdiv_def fl64_def round64_eval [where e = 1] round_ties_even_def Let_def)
  have r6: "fmul (Num (7505999378950827 / 2 ^ 51)) (Num 90000003) = Num 300000010"
    by (simp add: fmul_def fl64_def round64_eval [where e = 28] round_ties_even_def Let_def)
  have r7: "fsub (Num 270000015) (Num 300000010) = Num (- 29999995)"
    by (simp add: fsub_def fl64_Ints)
  have r8: "fdiv (Num (- 29999995)) (Num 3) = Num (- 5368708225215147 / 2 ^ 29)"
    by (simp add: fdiv_def fl64_def round64_eval [where e = 23] round_ties_even_def Let_def)
  have sl: "slope (regressionFit ?xs ?ys) = Num (7505999378950827 / 2 ^ 51)"
    unfolding regressionFit_def Let_def acc
    unfolding len3
    unfolding r1 r2 r3 r4 r5 by simp
  have ic: "intercept (regressionFit ?xs ?ys) = Num (- 5368708225215147 / 2 ^ 29)"
    unfolding regressionFit_def Let_def acc
    unfolding len3
    unfolding r1 r2 r3 r4 r5 r6 r7 r8 by simp
  have "linearRegression_pendulum ?xs ?ys = Some (regressionFit ?xs ?ys)"
    by (simp add: linearRegression_pendulum_def)
  moreover have "\<not> jsnear (slope (regressionFit ?xs ?ys)) 3 0.3"
    unfolding sl by simp
  ultimately show ?thesis
    using sl ic by (simp only: simp_thms)
qed

text \<open>
  Claim C7, amended: for samples of the line \<open>y = 3x + 2\<close> whose \<open>x\<close> values are integers of
  magnitude up to 1000, at most 1000 of them and two of them distinct, \<open>linearRegression\<close>
  returns slope 3, intercept 2 and \<open>R\<^sup>2 = 1\<close>, exactly: the sums, the two products and the
  two differences of the slope are computed without a rounding error, and the quotients
  are those of the least-squares formulas.
\<close>

theorem regression_recovers_line:
  assumes "ys = map (\<lambda>x. 3 * x + 2) xs"
    and "length xs \<le> 1000" and "\<forall>x\<in>set xs. x \<in> \<int> \<and> \<bar>x\<bar> \<le> 1000"
    and "i < length xs" "j < length xs" "xs ! i \<noteq> xs ! j"
  shows "linearRegression_pendulum xs ys = Some \<lparr>slope = Num 3, intercept = Num 2, r2 = Num 1\<rparr>
         \<and> linearRegression_centripetal xs ys = \<lparr>slope = Num 3, intercept = Num 2, r2 = Num 1\<rparr>"
proof -
  have "2 \<le> length xs"
    using assms(4-6) by (cases xs; cases "tl xs"; cases i; cases j) auto
  then show ?thesis
    using regressionFit_line [OF assms]
    by (simp add: linearRegression_pendulum_def linearRegression_centripetal_def)
qed

text \<open>The samples at \<open>x = 0, 1, 5\<close>.\<close>

theorem regression_recovers_line_witness:
  "[2, 5, 17 :: real] = map (\<lambda>x. 3 * x + 2) [0, 1, 5] \<and> length [0, 1, 5 :: real] \<le> 1000
   \<and> (0::nat) < length [0, 1, 5 :: real]
   \<and> (1::nat) < length [0, 1, 5 :: real] \<and> [0, 1, 5 :: real] ! 0 \<noteq> [0, 1, 5] ! 1
   \<and> linearRegression_pendulum [0, 1, 5] [2, 5, 17]
       = Some \<lparr>slope = Num 3, intercept = Num 2, r2 = Num 1\<rparr>
   \<and> linearRegression_centripetal [0, 1, 5] [2, 5, 17]
       = \<lparr>slope = Num 3, intercept = Num 2, r2 = Num 1\<rparr>"
  using regression_recovers_line [of "[2, 5, 17]" "[0, 1, 5]" 0 1]
  by simp

section \<open>The puck and the walls of the table\<close>

lemma integratePuck_table [simp]:
  "tableWidth (integratePuck dt s) = tableWidth s"
  "tableHeight (integratePuck dt s) = tableHeight s"
  by (simp_all add: integratePuck_def Let_def)

lemma collideWalls_x:
  assumes "2 * puckRadiusCm \<le> tableWidth r"
  shows "puckX (collideWalls r) =
           (if puckX r < puckRadiusCm then puckRadiusCm
            else if puckX r > tableWidth r - puckRadiusCm then tableWidth r - puckRadiusCm
            else puckX r)"
    and "puckVx (collideWalls r) =
           (if puckX r < puckRadiusCm \<or> puckX r > tableWidth r - puckRadiusCm
            then - 0.8 * puckVx r else puckVx r)"
  using assms by (auto simp add: collideWalls_def Let_def)

lemma collideWalls_y:
  assumes "2 * puckRadiusCm \<le> tableHeight r"
  shows "puckY (collideWalls r) =
           (if puckY r < puckRadiusCm then puckRadiusCm
            else if puckY r > tableHeight r - puckRadiusCm then tableHeight r - puckRadiusCm
            else puckY r)"
    and "puckVy (collideWalls r) =
           (if puckY r < puckRadiusCm \<or> puckY r > tableHeight r - puckRadiusCm
            then - 0.8 * puckVy r else puckVy r)"
  using assms by (auto simp add: collideWalls_def Let_def)


lemma sqrt_2500: "sqrt 2500 = 50"
  by (rule real_sqrt_unique) simp_all

lemma integratePuck_eq:
  "integratePuck dt s =
     s\<lparr>puckVy := puckVy s + slopeAccel (slopeAngle s) * dt,
       puckX := puckX s + puckVx s * dt,
       puckY := puckY s + (puckVy s + slopeAccel (slopeAngle s) * dt) * dt\<rparr>"
  by (simp add: integratePuck_def Let_def)

lemma collideWalls_inside:
  assumes "puckRadiusCm \<le> puckX r" "puckX r \<le> tableWidth r - puckRadiusCm"
    and "puckRadiusCm \<le> puckY r" "puckY r \<le> tableHeight r - puckRadiusCm"
  shows "collideWalls r = r"
  using assms by (simp add: collideWalls_def Let_def)

lemma free_step:
  assumes "puckRadiusCm \<le> puckX s + puckVx s * dt"
    and "puckX s + puckVx s * dt \<le> tableWidth s - puckRadiusCm"
    and "puckRadiusCm \<le> puckY s + (puckVy s + slopeAccel (slopeAngle s) * dt) * dt"
    and "puckY s + (puckVy s + slopeAccel (slopeAngle s) * dt) * dt \<le> tableHeight s - puckRadiusCm"
  shows "collideWalls (integratePuck dt s) = integratePuck dt s"
  using assms by (intro collideWalls_inside) (simp_all add: integratePuck_eq)

lemma updatePhysics_puck_free:
  assumes "puckRadiusCm \<le> puckX s + puckVx s * dt"
    and "puckX s + puckVx s * dt \<le> tableWidth s - puckRadiusCm"
    and "puckRadiusCm \<le> puckY s + (puckVy s + slopeAccel (slopeAngle s) * dt) * dt"
    and "puckY s + (puckVy s + slopeAccel (slopeAngle s) * dt) * dt \<le> tableHeight s - puckRadiusCm"
  shows "updatePhysics_puck dt s =
     s\<lparr>puckVy := puckVy s + slopeAccel (slopeAngle s) * dt,
       puckX := puckX s + puckVx s * dt,
       puckY := puckY s + (puckVy s + slopeAccel (slopeAngle s) * dt) * dt\<rparr>"
  unfolding updatePhysics_puck_def free_step [OF assms] by (rule integratePuck_eq)

lemma fold_const_funpow:
  "fold (\<lambda>i. f) [0..<n] s = (f ^^ n) s"
proof -
  have "fold (\<lambda>i. f) xs s = (f ^^ length xs) s" for xs :: "nat list"
    by (induction xs arbitrary: s) (simp_all add: funpow_swap1)
  from this [of "[0..<n]"] show ?thesis by simp
qed

lemma puckRadiusCm_3: "puckRadiusCm = 3"
  by (simp add: puckRadiusCm_def puckRadius_def pixelsPerCm_def)

lemma frame_parts_puckY [simp]:
  "puckY (tickClock dt s) = puckY s" "puckY (detectApex pv s) = puckY s"
  "puckY (addSparkDot ts s) = puckY s" "puckY (trackMinY s) = puckY s"
  "puckY (detectMoved s) = puckY s"
  by (simp_all add: tickClock_def detectApex_def addSparkDot_def trackMinY_def detectMoved_def)

lemma frame_parts_launchY [simp]:
  "launchY (tickClock dt s) = launchY s" "launchY (detectApex pv s) = launchY s"
  "launchY (addSparkDot ts s) = launchY s" "launchY (trackMinY s) = launchY s"
  "launchY (detectMoved s) = launchY s"
  by (simp_all add: tickClock_def detectApex_def addSparkDot_def trackMinY_def detectMoved_def)

lemma detectMoved_flag:
  "hasMovedFromStart (detectMoved s) = (hasMovedFromStart s \<or> 1 < \<bar>puckY s - launchY s\<bar>)"
  by (simp add: detectMoved_def)

lemma detectReturn_complete:
  "trajectoryComplete (detectReturn s)
   = (trajectoryComplete s \<or> hasMovedFromStart s \<and> launchY s \<le> puckY s)"
  by (auto simp add: detectReturn_def)

text \<open>A frame ends the run as complete once the puck is more than 1 cm below its launch height.\<close>

lemma finishFrame_completes_below:
  assumes "launchY s3 + 1 < puckY s3"
  shows "trajectoryComplete (finishFrame timestamp dt prevVy s3)"
  using assms by (simp add: finishFrame_def detectReturn_complete detectMoved_flag)

lemmas frame_parts = finishFrame_def tickClock_def detectApex_def addSparkDot_def
  trackMinY_def detectMoved_def detectReturn_def

lemmas puck_consts = loadedTable_def pixelsPerCm_def puckRadius_def puckRadiusCm_def

lemmas free_steps = physicsSteps_def fold_const_funpow eval_nat_numeral updatePhysics_puck_free
  free_step

lemma animate_puck_running:
  "isAnimating_puck s \<Longrightarrow>
   animate_puck timestamp s =
     finishFrame timestamp (frameDt timestamp s) (puckVy (frameStart timestamp s))
       (fold (\<lambda>i. updatePhysics_puck (frameDt timestamp s / real physicsSteps))
          [0..<physicsSteps] (frameStart timestamp s))"
  by (simp add: animate_puck_def Let_def)

text \<open>
  Claim C5: on a table that has room for the puck (at least two margins wide and high),
  after every \<open>updatePhysics\<close> call the puck lies between the margins in both
  directions; and whenever the integration step has carried a coordinate past a margin, that
  coordinate is set to the margin and its velocity component \<open>v\<close> becomes \<open>-0.8 v\<close>.
\<close>

theorem puck_stays_on_table:
  assumes "2 * puckRadiusCm \<le> tableWidth s" and "2 * puckRadiusCm \<le> tableHeight s"
  shows "puckRadiusCm \<le> puckX (updatePhysics_puck dt s)
       \<and> puckX (updatePhysics_puck dt s) \<le> tableWidth s - puckRadiusCm
       \<and> puckRadiusCm \<le> puckY (updatePhysics_puck dt s)
       \<and> puckY (updatePhysics_puck dt s) \<le> tableHeight s - puckRadiusCm
       \<and> (puckX (integratePuck dt s) < puckRadiusCm \<longrightarrow>
            puckX (updatePhysics_puck dt s) = puckRadiusCm
            \<and> puckVx (updatePhysics_puck dt s) = - 0.8 * puckVx (integratePuck dt s))
       \<and> (puckX (integratePuck dt s) > tableWidth s - puckRadiusCm \<longrightarrow>
            puckX (updatePhysics_puck dt s) = tableWidth s - puckRadiusCm
            \<and> puckVx (updatePhysics_puck dt s) = - 0.8 * puckVx (integratePuck dt s))
       \<and> (puckY (integratePuck dt s) < puckRadiusCm \<longrightarrow>
            puckY (updatePhysics_puck dt s) = puckRadiusCm
            \<and> puckVy (updatePhysics_puck dt s) = - 0.8 * puckVy (integratePuck dt s))
       \<and> (puckY (integratePuck dt s) > tableHeight s - puckRadiusCm \<longrightarrow>
            puckY (updatePhysics_puck dt s) = tableHeight s - puckRadiusCm
            \<and> puckVy (updatePhysics_puck dt s) = - 0.8 * puckVy (integratePuck dt s))"
proof -
  let ?r = "integratePuck dt s"
  have w: "2 * puckRadiusCm \<le> tableWidth ?r" and h: "2 * puckRadiusCm \<le> tableHeight ?r"
    using assms by simp_all
  show ?thesis
    unfolding updatePhysics_puck_def collideWalls_x [OF w] collideWalls_y [OF h]
    using assms by auto
qed

text \<open>A puck that the step carries through the left wall at 100 cm/s comes back at 80.\<close>

theorem puck_stays_on_table_witness:
  "2 * puckRadiusCm \<le> tableWidth (loadedTable\<lparr>puckX := 3.5, puckVx := - 100\<rparr>)
   \<and> 2 * puckRadiusCm \<le> tableHeight (loadedTable\<lparr>puckX := 3.5, puckVx := - 100\<rparr>)
   \<and> puckX (integratePuck 0.01 (loadedTable\<lparr>puckX := 3.5, puckVx := - 100\<rparr>)) < puckRadiusCm
   \<and> puckX (updatePhysics_puck 0.01 (loadedTable\<lparr>puckX := 3.5, puckVx := - 100\<rparr>)) = 3
   \<and> puckVx (updatePhysics_puck 0.01 (loadedTable\<lparr>puckX := 3.5, puckVx := - 100\<rparr>)) = 80"
proof -
  let ?s = "loadedTable\<lparr>puckX := 3.5, puckVx := - 100\<rparr>"
  have h: "2 * puckRadiusCm \<le> tableWidth ?s" "2 * puckRadiusCm \<le> tableHeight ?s"
    by (simp_all add: puck_consts)
  have i: "puckX (integratePuck 0.01 ?s) = 2.5" "puckVx (integratePuck 0.01 ?s) = - 100"
    by (simp_all add: integratePuck_eq)
  from puck_stays_on_table [OF h, of "0.01"] h i
  show ?thesis by (simp add: puckRadiusCm_3)
qed

section \<open>A horizontal launch\<close>

lemma sin_cubic_lower:
  fixes x :: real
  assumes "0 \<le> x"
  shows "x - x^3 / 6 \<le> sin x"
proof -
  have "{..<3::nat} = {0, 1, 2}" by auto
  then have "(\<Sum>m<3. sin_coeff m * x ^ m) = x"
    by (simp add: sin_coeff_vals)
  moreover have "fact 3 = (6::real)"
    by (simp add: fact_numeral)
  then have "inverse (fact 3) * \<bar>x\<bar> ^ 3 = x^3 / 6"
    using assms by (simp only: inverse_eq_divide abs_of_nonneg)
  ultimately have "\<bar>sin x - x\<bar> \<le> x^3 / 6"
    using Maclaurin_sin_bound [of x 3] by (simp only:)
  then show ?thesis by linarith
qed

lemma slopeAccel_5_bounds: "85 < slopeAccel 5" "slopeAccel 5 < 86"
proof -
  define x :: real where "x = 5 * pi / 180"
  have x: "8725 / 100000 < x" "x < 873 / 10000"
    using pi_lower pi_upper by (simp_all add: x_def)
  then have "x^3 \<le> (873 / 10000)^3"
    by (intro power_mono) simp_all
  also have "\<dots> \<le> (67 / 100000 :: real)"
    by (simp add: power3_eq_cube)
  finally have "x^3 \<le> 67 / 100000" .
  then have "871 / 10000 < x - x^3 / 6"
    using x by linarith
  also have "\<dots> \<le> sin x"
    using x by (intro sin_cubic_lower) simp
  finally have lo: "871 / 10000 < sin x" .
  have "sin x \<le> x"
    using x by (intro sin_x_le_x) simp
  then have hi: "sin x < 873 / 10000"
    using x by linarith
  show "85 < slopeAccel 5" "slopeAccel 5 < 86"
    using lo hi by (simp_all add: slopeAccel_def g_def x_def Let_def)
qed

text \<open>
  Claim C2 says that a run launched with no vertical velocity never signals the completion
  of its trajectory unless a wall has deflected the puck first. The run below is launched
  horizontally at 150 cm/s on the default slope of 5 degrees; its first frame has no
  elapsed time and its second one 200 ms. No boundary check fires in any of the twenty
  sub-steps, the puck only moves down the slope, and the second frame sets
  \<open>trajectoryComplete\<close>: by \<open>finishFrame_completes_below\<close> any frame does so once the puck is
  more than 1 cm below its launch height, which it never left upwards.
\<close>

theorem horizontal_launch_completes_without_bounce:
  "puckVx (mouseup 50 0 loadedTable) = 150 \<and> puckVy (mouseup 50 0 loadedTable) = 0
   \<and> runNoBounce [1000, 1200] (mouseup 50 0 loadedTable)
   \<and> \<not> trajectoryComplete (animate_puck 1000 (mouseup 50 0 loadedTable))
   \<and> trajectoryComplete (animate_puck 1200 (animate_puck 1000 (mouseup 50 0 loadedTable)))"
proof -
  let ?L = "loadedTable\<lparr>puckVx := 150, puckVy := 0, isAnimating_puck := True, lastTime := 0,
       lastSparkTime := 0, launchX := 80, launchY := 30, minY := 30,
       hasMovedFromStart := False, trajectoryComplete := False, simulationTime_puck := 0,
       timeToMaxHeight := 0, flightTime := 0, reachedMaxHeight := False,
       sparkDots := [(80, 30)]\<rparr>"
  let ?S1 = "?L\<lparr>lastTime := 1000, lastSparkTime := 1000\<rparr>"
  let ?S2 = "?S1\<lparr>lastTime := 1200\<rparr>"
  let ?P2 = "?S2\<lparr>puckVy := slopeAccel 5 / 5, puckX := 110, puckY := 30 + slopeAccel 5 * 11 / 500\<rparr>"
  note a = slopeAccel_5_bounds
  have L: "mouseup 50 0 loadedTable = ?L"
    by (simp add: mouseup_def loadedTable_def startAnimation_puck_def sqrt_2500 pixelsPerCm_def Let_def)
  have v: "puckVx ?L = 150" "puckVy ?L = 0" and run1: "isAnimating_puck ?L"
    by simp_all
  have fs1: "frameStart 1000 ?L = ?S1" "frameDt 1000 ?L = 0" "puckVy ?S1 = 0"
    by (simp_all add: frameStart_def frameDt_def)
  have ph1: "fold (\<lambda>i. updatePhysics_puck (0 / real physicsSteps)) [0..<physicsSteps] ?S1 = ?S1"
    by (simp add: free_steps puck_consts)
  have nb1: "noBounce (0 / real physicsSteps) physicsSteps ?S1"
    by (simp add: free_steps puck_consts)
  have fin1: "finishFrame 1000 0 0 ?S1 = ?S1"
    by (simp add: frame_parts puck_consts)
  have F1: "animate_puck 1000 ?L = ?S1"
    by (simp only: animate_puck_running [OF run1] fs1 ph1 fin1)
  have run2: "isAnimating_puck ?S1" and nc1: "\<not> trajectoryComplete ?S1"
    by simp_all
  have fs2: "frameStart 1200 ?S1 = ?S2" "frameDt 1200 ?S1 = 1 / 5" "puckVy ?S2 = 0"
    by (simp_all add: frameStart_def frameDt_def)
  have ph2: "fold (\<lambda>i. updatePhysics_puck (1 / 5 / real physicsSteps)) [0..<physicsSteps] ?S2 = ?P2"
    using a by (simp add: free_steps puck_consts)
  have nb2: "noBounce (1 / 5 / real physicsSteps) physicsSteps ?S2"
    using a by (simp add: free_steps puck_consts)
  have "launchY ?P2 + 1 < puckY ?P2"
    using a by simp
  then have "trajectoryComplete (finishFrame 1200 (1 / 5) 0 ?P2)"
    by (rule finishFrame_completes_below)
  then have F2: "trajectoryComplete (animate_puck 1200 ?S1)"
    by (simp only: animate_puck_running [OF run2] fs2 ph2)
  have "runNoBounce [1000, 1200] ?L"
    by (simp only: runNoBounce.simps run1 run2 if_True fs1 fs2 nb1 nb2 F1 simp_thms)
  then show ?thesis
    unfolding L F1 using v nc1 F2 by (simp only: simp_thms)
qed

section \<open>The clamp of the cylinder's displacement\<close>

lemma trackAndClamp_displacement:
  "0 \<le> cylinderDisplacement (trackAndClamp a s)" "cylinderDisplacement (trackAndClamp a s) \<le> 5"
  by (simp_all add: trackAndClamp_def Let_def)

lemma updatePhysics_coupled_isAnimating [simp]:
  "isAnimating (updatePhysics_coupled dt s) = isAnimating s"
  by (simp add: updatePhysics_coupled_def trackAndClamp_def integrateCylinder_def
      swingPendulum_def Let_def)

lemma updatePhysics_coupled_clamped:
  assumes "isAnimating s \<or> 0 \<le> cylinderDisplacement s \<and> cylinderDisplacement s \<le> 5"
  shows "0 \<le> cylinderDisplacement (updatePhysics_coupled dt s)
         \<and> cylinderDisplacement (updatePhysics_coupled dt s) \<le> 5"
proof (cases "isAnimating s")
  case True
  then show ?thesis
    by (simp add: updatePhysics_coupled_def Let_def trackAndClamp_displacement)
next
  case False
  with assms show ?thesis
    by (simp add: updatePhysics_coupled_def)
qed

text \<open>
  Claim C4: after every \<open>updatePhysics\<close> sub-step of a run the displacement of the cylinder
  lies in \<open>[0, 5]\<close>, for every sequence of sub-steps and whatever the spring constant, the
  tension and the release angle are. (While nothing is animated \<open>updatePhysics\<close> returns at
  once, and the displacement stays where a run or a reset has left it.)
\<close>

theorem displacement_stays_clamped:
  assumes "isAnimating s \<or> 0 \<le> cylinderDisplacement s \<and> cylinderDisplacement s \<le> 5"
    and "dts \<noteq> []"
  shows "0 \<le> cylinderDisplacement (fold updatePhysics_coupled dts s)
         \<and> cylinderDisplacement (fold updatePhysics_coupled dts s) \<le> 5"
  using assms
proof (induction dts arbitrary: s)
  case Nil
  then show ?case by simp
next
  case (Cons dt dts)
  let ?s' = "updatePhysics_coupled dt s"
  have s': "0 \<le> cylinderDisplacement ?s' \<and> cylinderDisplacement ?s' \<le> 5"
    using Cons.prems(1) by (rule updatePhysics_coupled_clamped)
  show ?case
  proof (cases dts)
    case Nil
    with s' show ?thesis by simp
  next
    case (Cons dt' dts')
    then have "dts \<noteq> []" by simp
    with Cons.IH [of ?s'] s' show ?thesis by simp
  qed
qed

text \<open>Three sub-steps of the trial on the soft spring.\<close>

theorem displacement_stays_clamped_witness:
  "isAnimating softSpringTrial \<and> [0.002, 0.002, 0.002] \<noteq> ([] :: real list)
   \<and> 0 \<le> cylinderDisplacement (fold updatePhysics_coupled [0.002, 0.002, 0.002] softSpringTrial)
   \<and> cylinderDisplacement (fold updatePhysics_coupled [0.002, 0.002, 0.002] softSpringTrial) \<le> 5"
proof -
  have a: "isAnimating softSpringTrial"
    by (simp add: softSpringTrial_def startAnimation_coupled_def)
  then have "isAnimating softSpringTrial
     \<or> 0 \<le> cylinderDisplacement softSpringTrial \<and> cylinderDisplacement softSpringTrial \<le> 5"
    by simp
  from displacement_stays_clamped [OF this, of "[0.002, 0.002, 0.002]"] a
  show ?thesis by simp
qed

section \<open>The one-step lag between the cylinder and the pendulum\<close>

lemma swingPendulum_fields:
  "pendulumAngularVelocity (swingPendulum dt s)
   = (pendulumAngularVelocity s
      + - ((g + lastCylinderAccel s) / actualRopeLength) * sin (pendulumAngle s) * dt) * 0.9995"
  "pendulumAngle (swingPendulum dt s)
   = pendulumAngle s
     + (pendulumAngularVelocity s
        + - ((g + lastCylinderAccel s) / actualRopeLength) * sin (pendulumAngle s) * dt) * dt"
  by (simp_all add: swingPendulum_def Let_def)

lemma cylinder_parts_pendulum [simp]:
  "pendulumAngularVelocity (trackAndClamp a s) = pendulumAngularVelocity s"
  "pendulumAngle (trackAndClamp a s) = pendulumAngle s"
  "pendulumAngularVelocity (integrateCylinder dt a s) = pendulumAngularVelocity s"
  "pendulumAngle (integrateCylinder dt a s) = pendulumAngle s"
  by (simp_all add: trackAndClamp_def integrateCylinder_def Let_def)

lemma trackAndClamp_accel [simp]: "lastCylinderAccel (trackAndClamp a s) = a"
  by (simp add: trackAndClamp_def Let_def)

lemma updatePhysics_coupled_running:
  "isAnimating s \<Longrightarrow>
   updatePhysics_coupled dt s =
     trackAndClamp (cylinderAccelNow (swingPendulum dt s))
       (integrateCylinder dt (cylinderAccelNow (swingPendulum dt s)) (swingPendulum dt s))"
  by (simp add: updatePhysics_coupled_def Let_def)

text \<open>Starting or resetting a trial leaves the stored acceleration as it is.\<close>

lemma trial_keeps_lastCylinderAccel:
  "lastCylinderAccel (startAnimation_coupled s) = lastCylinderAccel s"
  "lastCylinderAccel (resetTrial s) = lastCylinderAccel s"
  by (simp_all add: startAnimation_coupled_def resetTrial_def stopAnimation_coupled_def Let_def)

text \<open>
  In every sub-step of a run the pendulum is advanced with the effective gravity
  \<open>g + lastCylinderAccel\<close>, the acceleration of the cylinder that the sub-step executed
  before it has stored; the acceleration that this sub-step computes, from the pendulum as
  already advanced, is stored at its end and is the one that the next sub-step uses. The
  stored value is zero after a full reset, and so it is at the first sub-step of the run
  that follows it.
\<close>

lemma lagged_coupling:
  assumes "isAnimating s"
  shows "pendulumAngularVelocity (updatePhysics_coupled dt s)
         = (pendulumAngularVelocity s
            + - ((g + lastCylinderAccel s) / actualRopeLength) * sin (pendulumAngle s) * dt)
           * 0.9995
       \<and> pendulumAngle (updatePhysics_coupled dt s)
         = pendulumAngle s
           + (pendulumAngularVelocity s
              + - ((g + lastCylinderAccel s) / actualRopeLength) * sin (pendulumAngle s) * dt)
             * dt
       \<and> lastCylinderAccel (updatePhysics_coupled dt s) = cylinderAccelNow (swingPendulum dt s)
       \<and> pendulumAngularVelocity (updatePhysics_coupled dt' (updatePhysics_coupled dt s))
         = (pendulumAngularVelocity (updatePhysics_coupled dt s)
            + - ((g + cylinderAccelNow (swingPendulum dt s)) / actualRopeLength)
              * sin (pendulumAngle (updatePhysics_coupled dt s)) * dt')
           * 0.9995
       \<and> lastCylinderAccel (fullReset b s) = 0
       \<and> lastCylinderAccel (startAnimation_coupled (fullReset b s)) = 0"
proof -
  let ?s' = "updatePhysics_coupled dt s"
  have run': "isAnimating ?s'"
    using assms by simp
  have 1: "pendulumAngularVelocity ?s'
         = (pendulumAngularVelocity s
            + - ((g + lastCylinderAccel s) / actualRopeLength) * sin (pendulumAngle s) * dt)
           * 0.9995"
    and 2: "pendulumAngle ?s'
         = pendulumAngle s
           + (pendulumAngularVelocity s
              + - ((g + lastCylinderAccel s) / actualRopeLength) * sin (pendulumAngle s) * dt)
             * dt"
    and 3: "lastCylinderAccel ?s' = cylinderAccelNow (swingPendulum dt s)"
    unfolding updatePhysics_coupled_running [OF assms]
    by (simp_all add: swingPendulum_fields)
  have 4: "pendulumAngularVelocity (updatePhysics_coupled dt' ?s')
         = (pendulumAngularVelocity ?s'
            + - ((g + cylinderAccelNow (swingPendulum dt s)) / actualRopeLength)
              * sin (pendulumAngle ?s') * dt')
           * 0.9995"
    unfolding updatePhysics_coupled_running [OF run', of dt']
    by (simp add: swingPendulum_fields 3)
  have 5: "lastCylinderAccel (fullReset b s) = 0"
    by (simp add: fullReset_def init_coupled_def stopAnimation_coupled_def Let_def)
  have 6: "lastCylinderAccel (startAnimation_coupled (fullReset b s)) = 0"
    by (simp only: trial_keeps_lastCylinderAccel 5)
  from 1 2 3 4 5 6 show ?thesis
    by (simp only: simp_thms)
qed

lemma softSpringTrial_fields:
  "isAnimating softSpringTrial" "pendulumAngle softSpringTrial = 0"
  "pendulumAngularVelocity softSpringTrial = 0" "lastCylinderAccel softSpringTrial = 0"
  "cylinderDisplacement softSpringTrial = 0" "cylinderVelocity softSpringTrial = 0"
  "maxCylinderDisplacement softSpringTrial = 0" "effectiveSpringConstant softSpringTrial = 1000"
  "x3 softSpringTrial = Some 30" "currentSpringLength softSpringTrial = 30"
  by (simp_all add: softSpringTrial_def startAnimation_coupled_def)

section \<open>The largest displacement of a run\<close>

lemma updatePhysics_coupled_max:
  assumes "isAnimating s"
  shows "maxCylinderDisplacement (updatePhysics_coupled dt s)
         = max (maxCylinderDisplacement s) \<bar>preClampDisplacement dt s\<bar>"
proof -
  have t: "maxCylinderDisplacement (trackAndClamp a r)
           = max (maxCylinderDisplacement r) \<bar>cylinderDisplacement r\<bar>" for a r
    by (simp add: trackAndClamp_def Let_def max_def)
  have i: "maxCylinderDisplacement (integrateCylinder dt a r) = maxCylinderDisplacement r" for a r
    by (simp add: integrateCylinder_def Let_def)
  have p: "maxCylinderDisplacement (swingPendulum dt s) = maxCylinderDisplacement s"
    by (simp add: swingPendulum_def Let_def)
  show ?thesis
    unfolding updatePhysics_coupled_running [OF assms] t i p preClampDisplacement_def Let_def ..
qed

lemma updatePhysics_coupled_max_mono:
  "maxCylinderDisplacement s \<le> maxCylinderDisplacement (updatePhysics_coupled dt s)"
proof (cases "isAnimating s")
  case True
  then show ?thesis by (simp add: updatePhysics_coupled_max)
next
  case False
  then show ?thesis by (simp add: updatePhysics_coupled_def)
qed

lemma Max_cons_max:
  fixes a b :: real
  shows "Max (set (max a b # xs)) = Max (set (a # b # xs))"
proof (cases "xs = []")
  case True
  then show ?thesis by simp
next
  case False
  then show ?thesis by (simp add: max.assoc)
qed

lemma fold_updatePhysics_coupled_max:
  assumes "isAnimating s"
  shows "maxCylinderDisplacement (fold updatePhysics_coupled dts s)
         = Max (set (maxCylinderDisplacement s # map abs (preClampTrace dts s)))"
  using assms
proof (induction dts arbitrary: s)
  case Nil
  then show ?case by simp
next
  case (Cons dt dts)
  let ?s' = "updatePhysics_coupled dt s"
  have "isAnimating ?s'"
    using Cons.prems by simp
  from Cons.IH [OF this]
  have "maxCylinderDisplacement (fold updatePhysics_coupled (dt # dts) s)
        = Max (set (max (maxCylinderDisplacement s) \<bar>preClampDisplacement dt s\<bar>
                    # map abs (preClampTrace dts ?s')))"
    using Cons.prems by (simp add: updatePhysics_coupled_max)
  also have "\<dots> = Max (set (maxCylinderDisplacement s # \<bar>preClampDisplacement dt s\<bar>
                    # map abs (preClampTrace dts ?s')))"
    by (rule Max_cons_max)
  finally show ?case by simp
qed

text \<open>
  A run in which the largest displacement exceeds the clamp bound: the trial on the soft
  spring. Its pendulum hangs at rest, so the rope pulls with the weight of the small mass,
  and the cylinder sinks with an acceleration of at least 740 cm per second squared while its
  displacement is at most 5 cm.
\<close>

lemma swingPendulum_at_rest:
  assumes "pendulumAngle s = 0" "pendulumAngularVelocity s = 0"
  shows "pendulumAngle (swingPendulum dt s) = 0" "pendulumAngularVelocity (swingPendulum dt s) = 0"
  using assms by (simp_all add: swingPendulum_fields)

lemma swingPendulum_cylinder [simp]:
  "cylinderVelocity (swingPendulum dt s) = cylinderVelocity s"
  "cylinderDisplacement (swingPendulum dt s) = cylinderDisplacement s"
  "effectiveSpringConstant (swingPendulum dt s) = effectiveSpringConstant s"
  "x3 (swingPendulum dt s) = x3 s"
  "isAnimating (swingPendulum dt s) = isAnimating s"
  by (simp_all add: swingPendulum_def Let_def)

lemma cylinder_parts_unchanged [simp]:
  "effectiveSpringConstant (trackAndClamp a s) = effectiveSpringConstant s"
  "x3 (trackAndClamp a s) = x3 s"
  "cylinderVelocity (trackAndClamp a s) = cylinderVelocity s"
  "effectiveSpringConstant (integrateCylinder dt a s) = effectiveSpringConstant s"
  "x3 (integrateCylinder dt a s) = x3 s"
  by (simp_all add: trackAndClamp_def integrateCylinder_def Let_def)

lemma integrateCylinder_fields:
  "cylinderVelocity (integrateCylinder dt a s) = (cylinderVelocity s + a * dt) * 0.95"
  "cylinderDisplacement (integrateCylinder dt a s)
   = cylinderDisplacement s + (cylinderVelocity s + a * dt) * 0.95 * dt"
  by (simp_all add: integrateCylinder_def Let_def)

lemma trackAndClamp_clamps:
  "cylinderDisplacement (trackAndClamp a s) = max 0 (min 5 (cylinderDisplacement s))"
  by (simp add: trackAndClamp_def Let_def)

lemma cylinderAccelNow_at_rest:
  assumes "pendulumAngle s = 0" "pendulumAngularVelocity s = 0"
    and "effectiveSpringConstant s = 1000" "x3 s = Some 30"
  shows "cylinderAccelNow s = 2170 - 2000 / 7 * cylinderDisplacement s"
  using assms
  by (simp add: cylinderAccelNow_def x3_or_currentSpringLength_def actualRopeLength_def
      cylinderMass_def smallMass_def naturalSpringLength_def g_def Let_def field_simps)

lemma rest_step:
  assumes "isAnimating s" "pendulumAngle s = 0" "pendulumAngularVelocity s = 0"
    and "effectiveSpringConstant s = 1000" "x3 s = Some 30"
  shows "isAnimating (updatePhysics_coupled dt s)"
    and "pendulumAngle (updatePhysics_coupled dt s) = 0"
    and "pendulumAngularVelocity (updatePhysics_coupled dt s) = 0"
    and "effectiveSpringConstant (updatePhysics_coupled dt s) = 1000"
    and "x3 (updatePhysics_coupled dt s) = Some 30"
    and "cylinderVelocity (updatePhysics_coupled dt s)
         = (cylinderVelocity s + (2170 - 2000 / 7 * cylinderDisplacement s) * dt) * 0.95"
    and "preClampDisplacement dt s
         = cylinderDisplacement s
           + (cylinderVelocity s + (2170 - 2000 / 7 * cylinderDisplacement s) * dt) * 0.95 * dt"
    and "cylinderDisplacement (updatePhysics_coupled dt s)
         = max 0 (min 5 (preClampDisplacement dt s))"
proof -
  let ?p = "swingPendulum dt s"
  have a: "cylinderAccelNow ?p = 2170 - 2000 / 7 * cylinderDisplacement s"
    using cylinderAccelNow_at_rest [of ?p] assms by (simp add: swingPendulum_at_rest)
  show "isAnimating (updatePhysics_coupled dt s)"
    using assms(1) by simp
  show "pendulumAngle (updatePhysics_coupled dt s) = 0"
    "pendulumAngularVelocity (updatePhysics_coupled dt s) = 0"
    unfolding updatePhysics_coupled_running [OF assms(1)]
    using assms by (simp_all add: swingPendulum_at_rest)
  show "effectiveSpringConstant (updatePhysics_coupled dt s) = 1000"
    "x3 (updatePhysics_coupled dt s) = Some 30"
    unfolding updatePhysics_coupled_running [OF assms(1)]
    using assms by simp_all
  show "cylinderVelocity (updatePhysics_coupled dt s)
         = (cylinderVelocity s + (2170 - 2000 / 7 * cylinderDisplacement s) * dt) * 0.95"
    unfolding updatePhysics_coupled_running [OF assms(1)] a
    by (simp add: integrateCylinder_fields)
  show p: "preClampDisplacement dt s
         = cylinderDisplacement s
           + (cylinderVelocity s + (2170 - 2000 / 7 * cylinderDisplacement s) * dt) * 0.95 * dt"
    unfolding preClampDisplacement_def Let_def a
    by (simp add: integrateCylinder_fields)
  show "cylinderDisplacement (updatePhysics_coupled dt s)
         = max 0 (min 5 (preClampDisplacement dt s))"
    unfolding updatePhysics_coupled_running [OF assms(1)] trackAndClamp_clamps
      preClampDisplacement_def Let_def ..
qed

lemma softSpringTrial_run:
  fixes n :: nat
  defines "s \<equiv> (updatePhysics_coupled 0.002 ^^ n) softSpringTrial"
  shows "isAnimating s \<and> pendulumAngle s = 0 \<and> pendulumAngularVelocity s = 0
       \<and> effectiveSpringConstant s = 1000 \<and> x3 s = Some 30
       \<and> (5 < maxCylinderDisplacement s
          \<or> 28 * (1 - (19 / 20) ^ n) \<le> cylinderVelocity s
            \<and> 0 \<le> cylinderDisplacement s
            \<and> 7 / 125 * (real n - 19 * (1 - (19 / 20) ^ n)) \<le> cylinderDisplacement s
            \<and> cylinderDisplacement s \<le> 5)"
  unfolding s_def
proof (induction n)
  case 0
  show ?case by (simp add: softSpringTrial_fields)
next
  case (Suc n)
  define s where "s = (updatePhysics_coupled 0.002 ^^ n) softSpringTrial"
  define s' where "s' = updatePhysics_coupled 0.002 s"
  define Q :: real where "Q = (19 / 20) ^ n"
  define v d where "v = cylinderVelocity s" and "d = cylinderDisplacement s"
  define pre where "pre = preClampDisplacement 0.002 s"
  have s'_eq: "(updatePhysics_coupled 0.002 ^^ Suc n) softSpringTrial = s'"
    by (simp add: s'_def s_def)
  have Q': "(19 / 20 :: real) ^ Suc n = 19 / 20 * Q"
    by (simp add: Q_def)
  have Q: "0 \<le> Q" "Q \<le> 1"
    by (simp_all add: Q_def power_le_one)
  from Suc.IH have rest: "isAnimating s" "pendulumAngle s = 0" "pendulumAngularVelocity s = 0"
    "effectiveSpringConstant s = 1000" "x3 s = Some 30"
    and inv: "5 < maxCylinderDisplacement s
          \<or> 28 * (1 - Q) \<le> v \<and> 0 \<le> d \<and> 7 / 125 * (real n - 19 * (1 - Q)) \<le> d \<and> d \<le> 5"
    by (simp_all add: s_def Q_def v_def d_def)
  note step = rest_step [OF rest, of "0.002", folded s'_def]
  have v': "cylinderVelocity s' = 19 / 20 * v + 4123 / 1000 - 19 / 35 * d"
    using step(6) by (simp add: v_def d_def algebra_simps)
  have pre: "pre = d + cylinderVelocity s' * (1 / 500)"
    using step(6,7) by (simp add: pre_def v_def d_def algebra_simps)
  have d': "cylinderDisplacement s' = max 0 (min 5 pre)"
    using step(8) by (simp add: pre_def)
  have m': "maxCylinderDisplacement s' = max (maxCylinderDisplacement s) \<bar>pre\<bar>"
    unfolding s'_def pre_def using rest(1) by (rule updatePhysics_coupled_max)
  have "5 < maxCylinderDisplacement s'
          \<or> 28 * (1 - 19 / 20 * Q) \<le> cylinderVelocity s'
            \<and> 0 \<le> cylinderDisplacement s'
            \<and> 7 / 125 * (real n + 1 - 19 * (1 - 19 / 20 * Q)) \<le> cylinderDisplacement s'
            \<and> cylinderDisplacement s' \<le> 5"
  proof (cases "5 < maxCylinderDisplacement s")
    case True
    then show ?thesis
      unfolding m' by (simp add: less_max_iff_disj)
  next
    case False
    with inv have b: "28 * (1 - Q) \<le> v" "0 \<le> d" "7 / 125 * (real n - 19 * (1 - Q)) \<le> d" "d \<le> 5"
      by simp_all
    have vb: "28 * (1 - 19 / 20 * Q) \<le> cylinderVelocity s'"
      unfolding v' using b(1,4) Q by argo
    have pb: "7 / 125 * (real n + 1 - 19 * (1 - 19 / 20 * Q)) \<le> pre"
      unfolding pre using vb b(3) Q by argo
    have p0: "0 \<le> pre"
      unfolding pre using vb b(2) Q by argo
    show ?thesis
    proof (cases "5 < pre")
      case True
      then have "5 < \<bar>pre\<bar>"
        by linarith
      then show ?thesis
        unfolding m' by (simp add: less_max_iff_disj)
    next
      case False
      with p0 have "cylinderDisplacement s' = pre"
        unfolding d' by simp
      with vb pb p0 False show ?thesis
        by simp
    qed
  qed
  with step(1-5) show ?case
    unfolding s'_eq Q' by simp
qed

lemma funpow_updatePhysics_coupled_isAnimating [simp]:
  "isAnimating ((updatePhysics_coupled dt ^^ n) s) = isAnimating s"
  by (induction n) simp_all

lemma animate_coupled_funpow:
  assumes "isAnimating s"
  shows "(animate_coupled ^^ k) s = (updatePhysics_coupled 0.002 ^^ (8 * k)) s"
proof (induction k)
  case 0
  show ?case by simp
next
  case (Suc k)
  have "isAnimating ((updatePhysics_coupled 0.002 ^^ (8 * k)) s)"
    using assms by simp
  then have "animate_coupled ((updatePhysics_coupled 0.002 ^^ (8 * k)) s)
      = (updatePhysics_coupled 0.002 ^^ 8) ((updatePhysics_coupled 0.002 ^^ (8 * k)) s)"
    by (simp add: animate_coupled_def fold_const_funpow Let_def)
  also have "\<dots> = (updatePhysics_coupled 0.002 ^^ (8 + 8 * k)) s"
    by (simp only: funpow_add o_apply)
  finally show ?case
    using Suc.IH by simp
qed

lemma softSpringTrial_exceeds:
  "5 < maxCylinderDisplacement ((animate_coupled ^^ 14) softSpringTrial)"
  "0 \<le> cylinderDisplacement ((animate_coupled ^^ 14) softSpringTrial)"
  "cylinderDisplacement ((animate_coupled ^^ 14) softSpringTrial) \<le> 5"
proof -
  let ?s = "(updatePhysics_coupled 0.002 ^^ 112) softSpringTrial"
  have eq: "(animate_coupled ^^ 14) softSpringTrial = ?s"
    using animate_coupled_funpow [of softSpringTrial 14] by (simp add: softSpringTrial_fields)
  define X :: real where "X = (19 / 20) ^ 112"
  have X: "0 \<le> X"
    by (simp add: X_def)
  from softSpringTrial_run [of 112]
  have "5 < maxCylinderDisplacement ?s
        \<or> 7 / 125 * (112 - 19 * (1 - X)) \<le> cylinderDisplacement ?s
          \<and> cylinderDisplacement ?s \<le> 5"
    unfolding X_def by auto
  then show "5 < maxCylinderDisplacement ((animate_coupled ^^ 14) softSpringTrial)"
    unfolding eq using X by argo
  have "112 = Suc 111" by simp
  then have "?s = updatePhysics_coupled 0.002 ((updatePhysics_coupled 0.002 ^^ 111) softSpringTrial)"
    by (simp only: funpow.simps o_apply)
  moreover have "isAnimating ((updatePhysics_coupled 0.002 ^^ 111) softSpringTrial)"
    by (simp add: softSpringTrial_fields)
  ultimately show "0 \<le> cylinderDisplacement ((animate_coupled ^^ 14) softSpringTrial)"
    "cylinderDisplacement ((animate_coupled ^^ 14) softSpringTrial) \<le> 5"
    unfolding eq using updatePhysics_coupled_clamped by simp_all
qed

text \<open>
  Claim C10: after any sub-steps of a run, \<open>maxCylinderDisplacement\<close> is the largest of the
  absolute values of the displacements that the sub-steps have computed before clamping
  them (and 0, its value at the start of the run); no sub-step lowers it; and it can exceed
  the clamp bound: after fourteen frames of the trial on the soft spring it is above 5,
  while the displacement itself is at most 5.
\<close>

theorem max_displacement_tracks_unclamped:
  assumes "\<not> isAnimating s0"
  shows "maxCylinderDisplacement (fold updatePhysics_coupled dts (startAnimation_coupled s0))
         = Max (set (0 # map abs (preClampTrace dts (startAnimation_coupled s0))))
       \<and> maxCylinderDisplacement s \<le> maxCylinderDisplacement (updatePhysics_coupled dt s)
       \<and> 5 < maxCylinderDisplacement ((animate_coupled ^^ 14) softSpringTrial)
       \<and> cylinderDisplacement ((animate_coupled ^^ 14) softSpringTrial) \<le> 5"
proof -
  have run: "isAnimating (startAnimation_coupled s0)"
    and zero: "maxCylinderDisplacement (startAnimation_coupled s0) = 0"
    using assms by (simp_all add: startAnimation_coupled_def)
  from fold_updatePhysics_coupled_max [OF run, of dts]
  have "maxCylinderDisplacement (fold updatePhysics_coupled dts (startAnimation_coupled s0))
         = Max (set (0 # map abs (preClampTrace dts (startAnimation_coupled s0))))"
    unfolding zero .
  with updatePhysics_coupled_max_mono [of s dt] softSpringTrial_exceeds(1,3)
  show ?thesis by (simp only: simp_thms)
qed

text \<open>The trial on the soft spring, stopped and released again.\<close>

theorem max_displacement_tracks_unclamped_witness:
  "\<not> isAnimating (stopAnimation_coupled softSpringTrial)
   \<and> maxCylinderDisplacement
        (fold updatePhysics_coupled [0.002, 0.002]
           (startAnimation_coupled (stopAnimation_coupled softSpringTrial)))
     = Max (set (0 # map abs (preClampTrace [0.002, 0.002]
           (startAnimation_coupled (stopAnimation_coupled softSpringTrial)))))
   \<and> 5 < maxCylinderDisplacement ((animate_coupled ^^ 14) softSpringTrial)"
proof -
  have "\<not> isAnimating (stopAnimation_coupled softSpringTrial)"
    by (simp add: stopAnimation_coupled_def)
  from this max_displacement_tracks_unclamped [OF this, of "[0.002, 0.002]"]
  show ?thesis by (simp only: simp_thms)
qed

section \<open>A trial after Reset Trial\<close>

lemma first_sub_step_after_reset:
  "isAnimating (startAnimation_coupled (resetTrial s))"
  "lastCylinderAccel (startAnimation_coupled (resetTrial s)) = lastCylinderAccel s"
  "pendulumAngularVelocity (updatePhysics_coupled dt (startAnimation_coupled (resetTrial s)))
   = - ((g + lastCylinderAccel s) / actualRopeLength) * sin (releaseAngle s) * dt * 0.9995"
proof -
  let ?t = "startAnimation_coupled (resetTrial s)"
  show run: "isAnimating ?t"
    and acc: "lastCylinderAccel ?t = lastCylinderAccel s"
    by (simp_all add: startAnimation_coupled_def resetTrial_def stopAnimation_coupled_def Let_def)
  have "pendulumAngle ?t = releaseAngle s" "pendulumAngularVelocity ?t = 0"
    by (simp_all add: startAnimation_coupled_def resetTrial_def stopAnimation_coupled_def Let_def)
  then show "pendulumAngularVelocity (updatePhysics_coupled dt ?t)
   = - ((g + lastCylinderAccel s) / actualRopeLength) * sin (releaseAngle s) * dt * 0.9995"
    unfolding updatePhysics_coupled_running [OF run]
    by (simp add: swingPendulum_fields acc)
qed

lemma hSliderInput_fields:
  "lastCylinderAccel (hSliderInput h s) = lastCylinderAccel s"
  "releaseAngle (hSliderInput h s) = calculateReleaseAngle h"
  by (simp_all add: hSliderInput_def Let_def)

text \<open>The acceleration that the first frame of the trial on the soft spring leaves behind.\<close>

lemma first_frame_accel:
  "741 < lastCylinderAccel (animate_coupled softSpringTrial)"
proof -
  define s7 where "s7 = (updatePhysics_coupled 0.002 ^^ 7) softSpringTrial"
  define s6 where "s6 = (updatePhysics_coupled 0.002 ^^ 6) softSpringTrial"
  have e8: "animate_coupled softSpringTrial = (updatePhysics_coupled 0.002 ^^ 8) softSpringTrial"
    using animate_coupled_funpow [of softSpringTrial 1] by (simp add: softSpringTrial_fields)
  have "(8::nat) = Suc 7" by simp
  then have a: "animate_coupled softSpringTrial = updatePhysics_coupled 0.002 s7"
    unfolding e8 s7_def by (simp only: funpow.simps o_apply)
  have "(7::nat) = Suc 6" by simp
  then have s7: "s7 = updatePhysics_coupled 0.002 s6"
    unfolding s7_def s6_def by (simp only: funpow.simps o_apply)
  have run6: "isAnimating s6"
    by (simp add: s6_def softSpringTrial_fields)
  from softSpringTrial_run [of 7]
  have rest: "isAnimating s7" "pendulumAngle s7 = 0" "pendulumAngularVelocity s7 = 0"
    "effectiveSpringConstant s7 = 1000" "x3 s7 = Some 30"
    by (simp_all add: s7_def)
  have d: "cylinderDisplacement s7 \<le> 5"
    unfolding s7 using updatePhysics_coupled_clamped [of s6 "0.002"] run6 by simp
  have "lastCylinderAccel (updatePhysics_coupled 0.002 s7)
        = cylinderAccelNow (swingPendulum 0.002 s7)"
    unfolding updatePhysics_coupled_running [OF rest(1)] by simp
  also have "\<dots> = 2170 - 2000 / 7 * cylinderDisplacement s7"
    using cylinderAccelNow_at_rest [of "swingPendulum 0.002 s7"] rest
    by (simp add: swingPendulum_at_rest)
  finally show ?thesis
    unfolding a using d by simp
qed

lemma sin_release_20: "sin (calculateReleaseAngle 20) = sqrt (104 / 225)"
proof -
  have "calculateReleaseAngle 20 = arccos (11 / 15)"
    by (simp add: calculateReleaseAngle_def actualRopeLength_def Let_def)
  moreover have "sin (arccos (11 / 15)) = sqrt (1 - (11 / 15)\<^sup>2)"
    by (rule sin_arccos) simp_all
  moreover have "1 - (11 / 15 :: real)\<^sup>2 = 104 / 225"
    by (simp add: power2_eq_square)
  ultimately show ?thesis by simp
qed

lemma sqrt_104_225: "0.679 < sqrt (104 / 225)" "sqrt (104 / 225) < 0.68"
  by (rule real_less_rsqrt, simp add: power2_eq_square,
      rule real_less_lsqrt, simp_all add: power2_eq_square)

lemma secondTrial_fields:
  "lastCylinderAccel secondTrial = lastCylinderAccel (animate_coupled softSpringTrial)"
  "releaseAngle secondTrial = calculateReleaseAngle 20"
  "pendulumAngularVelocity (updatePhysics_coupled dt secondTrial)
   = - ((g + lastCylinderAccel (animate_coupled softSpringTrial)) / actualRopeLength)
     * sqrt (104 / 225) * dt * 0.9995"
proof -
  let ?s = "hSliderInput 20 (animate_coupled softSpringTrial)"
  show "lastCylinderAccel secondTrial = lastCylinderAccel (animate_coupled softSpringTrial)"
    unfolding secondTrial_def first_sub_step_after_reset(2) hSliderInput_fields ..
  show "releaseAngle secondTrial = calculateReleaseAngle 20"
    by (simp add: secondTrial_def startAnimation_coupled_def resetTrial_def
        stopAnimation_coupled_def hSliderInput_fields Let_def)
  show "pendulumAngularVelocity (updatePhysics_coupled dt secondTrial)
   = - ((g + lastCylinderAccel (animate_coupled softSpringTrial)) / actualRopeLength)
     * sqrt (104 / 225) * dt * 0.9995"
    unfolding secondTrial_def first_sub_step_after_reset(3) hSliderInput_fields sin_release_20 ..
qed

text \<open>
  Claim C9, at the words \<open>zero on the first sub-step after a reset\<close>: the full reset sets
  \<open>lastCylinderAccel\<close> to zero, but neither the handler of Reset Trial nor \<open>startAnimation\<close>
  does, although they reset the displacement and the velocity of the cylinder. The first
  sub-step of a trial that is started after Reset Trial advances the pendulum, from rest at
  the release angle, with the acceleration that the last sub-step of the trial before it
  has stored. After one frame of the trial on the soft spring that acceleration is above
  741 cm per second squared: released from a height of 20 cm the pendulum leaves its first
  sub-step of 2 ms with an angular velocity below \<open>-0.031\<close> rad/s, where gravity alone
  (\<open>a_prev = 0\<close>) would give one above \<open>-0.018\<close> rad/s.
\<close>

theorem stale_acceleration_after_trial_reset:
  "lastCylinderAccel (fullReset b s) = 0
   \<and> lastCylinderAccel (resetTrial s) = lastCylinderAccel s
   \<and> lastCylinderAccel (startAnimation_coupled (resetTrial s)) = lastCylinderAccel s
   \<and> pendulumAngularVelocity (updatePhysics_coupled dt (startAnimation_coupled (resetTrial s)))
     = - ((g + lastCylinderAccel s) / actualRopeLength) * sin (releaseAngle s) * dt * 0.9995
   \<and> 741 < lastCylinderAccel secondTrial
   \<and> pendulumAngularVelocity (updatePhysics_coupled 0.002 secondTrial) < - 0.031
   \<and> - 0.018 < - (g / actualRopeLength) * sin (releaseAngle secondTrial) * 0.002 * 0.9995"
proof -
  define a where "a = lastCylinderAccel (animate_coupled softSpringTrial)"
  define r where "r = sqrt (104 / 225 :: real)"
  have a: "741 < a"
    unfolding a_def by (rule first_frame_accel)
  have r: "679 / 1000 < r" "r < 68 / 100"
    unfolding r_def using sqrt_104_225 by simp_all
  have 1: "lastCylinderAccel (fullReset b s) = 0"
    by (simp add: fullReset_def init_coupled_def stopAnimation_coupled_def Let_def)
  have 5: "741 < lastCylinderAccel secondTrial"
    unfolding secondTrial_fields using a by (simp add: a_def)
  have "1721 * (679 / 1000) < (980 + a) * r"
    using a r by (intro mult_strict_mono) simp_all
  then have "- ((980 + a) / 75) * r * (2 / 1000) * (9995 / 10000) < - (31 / 1000)"
    by (simp add: field_simps)
  then have 6: "pendulumAngularVelocity (updatePhysics_coupled 0.002 secondTrial) < - 0.031"
    unfolding secondTrial_fields a_def [symmetric] r_def [symmetric]
    by (simp add: g_def actualRopeLength_def)
  have "- (18 / 1000) < - (980 / 75) * r * (2 / 1000) * (9995 / 10000)"
    using r(2) by (simp add: field_simps)
  then have 7: "- 0.018 < - (g / actualRopeLength) * sin (releaseAngle secondTrial) * 0.002 * 0.9995"
    unfolding secondTrial_fields sin_release_20 r_def [symmetric]
    by (simp add: g_def actualRopeLength_def)
  from 1 trial_keeps_lastCylinderAccel(2) [of s]
    first_sub_step_after_reset(2) [where s = s]
    first_sub_step_after_reset(3) [where s = s and dt = dt] 5 6 7
  show ?thesis
    by (simp only: simp_thms)
qed

end
